theory Spec2Isabelle
  imports Main "HOL-Library.AList" "HOL-Library.Multiset" "HOL-Library.Sublist"
begin

section \<open>Errors\<close>

text \<open>
  The exceptions the modelled Python code can raise. A failed \<^verbatim>\<open>assert\<close> is
  \<open>AssertionError\<close>, a read of a missing dictionary key is \<open>KeyError\<close>, a call of a
  method that a class does not define is \<open>AttributeError\<close>, \<^verbatim>\<open>random.sample\<close> with a
  sample larger than its population is \<open>ValueError\<close>, and \<^verbatim>\<open>heapq.heappop\<close> on an
  empty list is \<open>IndexError\<close>.
\<close>

datatype error = AssertionError | KeyError | AttributeError | ValueError | IndexError

section \<open>The random module\<close>

text \<open>
  \<^verbatim>\<open>key.py\<close> uses the standard \<^verbatim>\<open>random\<close> module in two ways: a local generator
  \<^verbatim>\<open>random.Random(seed)\<close> with \<^verbatim>\<open>randint(0, 1)\<close>, and the module-level
  \<^verbatim>\<open>random.sample\<close>, which draws from the hidden generator shared by the whole
  process. The generator algorithm is the library's, so it is a parameter: a state
  type \<open>'g\<close> with the three operations below. The hidden state of the process is the
  record \<open>world\<close>: the shared generator and the entropy of the operating system that
  seeds an unseeded \<^verbatim>\<open>Random()\<close>.
\<close>

record 'g random_lib =
  seed_generator :: "int \<Rightarrow> 'g"
  randint01 :: "'g \<Rightarrow> int \<times> 'g"
  sample :: "'g \<Rightarrow> nat list \<Rightarrow> nat \<Rightarrow> nat list \<times> 'g"

record 'g world =
  global_random :: 'g
  os_entropy :: "nat \<Rightarrow> int"

text \<open>\<^verbatim>\<open>random.Random(seed)\<close>: seeded from the argument, or from the system when it is None.\<close>

definition Random :: "'g random_lib \<Rightarrow> int option \<Rightarrow> 'g world \<Rightarrow> 'g \<times> 'g world" where
  "Random R seed w =
     (case seed of
        Some n \<Rightarrow> (seed_generator R n, w)
      | None \<Rightarrow> (seed_generator R (os_entropy w 0),
                 w\<lparr>os_entropy := (\<lambda>n. os_entropy w (Suc n))\<rparr>))"

text \<open>
  What the library promises of \<^verbatim>\<open>sample(population, k)\<close> for \<open>k\<close> up to the size of
  the population: \<open>k\<close> elements taken from distinct positions of the population.
\<close>

definition sample_without_replacement :: "'g random_lib \<Rightarrow> bool" where
  "sample_without_replacement R \<longleftrightarrow>
     (\<forall>g population k. k \<le> length population \<longrightarrow>
        length (fst (sample R g population k)) = k \<and>
        mset (fst (sample R g population k)) \<subseteq># mset population)"

section \<open>Keys (key.py)\<close>

text \<open>
  A \<^verbatim>\<open>Key\<close> has a size and a dictionary of bits. The dictionary is an association
  list in insertion order; \<open>map_of\<close> reads it and \<open>AList.update\<close> stores into it the
  way a Python dictionary does (in place for a key that is present, at the end for a
  new one). Bit values are Python integers.
\<close>

record Key =
  key_size :: nat
  key_bits :: "(nat \<times> int) list"

text \<open>\<^verbatim>\<open>Key()\<close>: the empty key.\<close>

definition Key_init :: Key where
  "Key_init = \<lparr>key_size = 0, key_bits = []\<rparr>"

text \<open>Every index below the size has a bit; what the constructors establish.\<close>

definition well_formed :: "Key \<Rightarrow> bool" where
  "well_formed k \<longleftrightarrow> map fst (key_bits k) = [0..<key_size k]"

text \<open>The loop of \<^verbatim>\<open>create_random_key\<close>: one \<^verbatim>\<open>randint(0, 1)\<close> for each index.\<close>

fun fill_random :: "'g random_lib \<Rightarrow> nat list \<Rightarrow> 'g \<Rightarrow> (nat \<times> int) list \<Rightarrow> (nat \<times> int) list" where
  "fill_random R [] g bits = bits"
| "fill_random R (i # rest) g bits =
     (case randint01 R g of (b, g') \<Rightarrow> fill_random R rest g' (AList.update i b bits))"

definition create_random_key ::
  "'g random_lib \<Rightarrow> int \<Rightarrow> int option \<Rightarrow> 'g world \<Rightarrow> (error + Key) \<times> 'g world" where
  "create_random_key R size' seed w =
     (if \<not> 0 \<le> size' then (Inl AssertionError, w)
      else case Random R seed w of (local_random, w') \<Rightarrow>
        (Inr \<lparr>key_size = nat size',
              key_bits = fill_random R [0..<nat size'] local_random (key_bits Key_init)\<rparr>, w'))"

definition get_bit :: "Key \<Rightarrow> int \<Rightarrow> error + int" where
  "get_bit self index =
     (if \<not> (0 \<le> index \<and> index < int (key_size self)) then Inl AssertionError
      else case map_of (key_bits self) (nat index) of
             None \<Rightarrow> Inl KeyError
           | Some v \<Rightarrow> Inr v)"

definition flip_bit :: "Key \<Rightarrow> int \<Rightarrow> error + Key" where
  "flip_bit self index =
     (if \<not> (0 \<le> index \<and> index < int (key_size self)) then Inl AssertionError
      else case map_of (key_bits self) (nat index) of
             None \<Rightarrow> Inl KeyError
           | Some v \<Rightarrow> Inr (self\<lparr>key_bits := AList.update (nat index) (1 - v) (key_bits self)\<rparr>))"

text \<open>
  The noise loop of \<^verbatim>\<open>copy\<close>. It stores into the dictionary it is given; a missing
  index stops it with the dictionary as far as it got.
\<close>

fun apply_noise :: "(nat \<times> int) list \<Rightarrow> nat list \<Rightarrow> error option \<times> (nat \<times> int) list" where
  "apply_noise bits [] = (None, bits)"
| "apply_noise bits (index # rest) =
     (case map_of bits index of
        None \<Rightarrow> (Some KeyError, bits)
      | Some v \<Rightarrow> apply_noise (AList.update index (1 - v) bits) rest)"

text \<open>
  \<^verbatim>\<open>copy(self, error_count)\<close>. The result is the returned key (or the exception), the
  receiver \<^verbatim>\<open>self\<close> after the call, and the hidden state after the call. The new key
  takes a deep copy of the receiver's bits; the sample is drawn from the receiver's
  indexes with the shared generator; the loop then stores into \<^verbatim>\<open>self._bits\<close>.
  The population of the sample is the view \<^verbatim>\<open>self._bits.keys()\<close>, which
  \<^verbatim>\<open>random.sample\<close> accepts in the Python versions the module was written for
  (up to 3.10) and reads in insertion order.
\<close>

definition copy ::
  "'g random_lib \<Rightarrow> Key \<Rightarrow> int \<Rightarrow> 'g world \<Rightarrow> (error + Key) \<times> Key \<times> 'g world" where
  "copy R self error_count w =
     (if \<not> (0 \<le> error_count \<and> error_count \<le> int (key_size self))
      then (Inl AssertionError, self, w)
      else
        let key = Key_init\<lparr>key_size := key_size self, key_bits := key_bits self\<rparr>;
            population = map fst (key_bits self)
        in if length population < nat error_count then (Inl ValueError, self, w)
           else case sample R (global_random w) population (nat error_count) of
             (bits_to_flip, g') \<Rightarrow>
               (case apply_noise (key_bits self) bits_to_flip of
                  (Some e, bits') \<Rightarrow> (Inl e, self\<lparr>key_bits := bits'\<rparr>, w\<lparr>global_random := g'\<rparr>)
                | (None, bits') \<Rightarrow> (Inr key, self\<lparr>key_bits := bits'\<rparr>, w\<lparr>global_random := g'\<rparr>)))"

text \<open>The counting loop of \<^verbatim>\<open>difference\<close> over \<^verbatim>\<open>range(self._size)\<close>.\<close>

fun difference_loop :: "Key \<Rightarrow> Key \<Rightarrow> nat list \<Rightarrow> int \<Rightarrow> error + int" where
  "difference_loop self other_key [] difference = Inr difference"
| "difference_loop self other_key (i # rest) difference =
     (case map_of (key_bits self) i of
        None \<Rightarrow> Inl KeyError
      | Some x \<Rightarrow>
          (case map_of (key_bits other_key) i of
             None \<Rightarrow> Inl KeyError
           | Some y \<Rightarrow>
               difference_loop self other_key rest
                 (if x \<noteq> y then difference + 1 else difference)))"

definition difference :: "Key \<Rightarrow> Key \<Rightarrow> error + int" where
  "difference self other_key =
     (if key_size self \<noteq> key_size other_key then Inl AssertionError
      else difference_loop self other_key [0..<key_size self] 0)"

section \<open>A concrete generator\<close>

text \<open>
  A small linear congruential generator, to run the definitions on concrete keys.
  Its \<open>sample\<close> picks a position, removes it from the population and goes on.
\<close>

definition lcg_next :: "nat \<Rightarrow> nat" where
  "lcg_next g = (g * 75 + 74) mod 65537"

fun lcg_sample :: "nat \<Rightarrow> nat list \<Rightarrow> nat \<Rightarrow> nat list \<times> nat" where
  "lcg_sample g population 0 = ([], g)"
| "lcg_sample g population (Suc k) =
     (if population = [] then ([], g)
      else let g' = lcg_next g; j = g' mod length population
           in case lcg_sample g' (take j population @ drop (Suc j) population) k of
                (picked, g'') \<Rightarrow> (population ! j # picked, g''))"

definition lcg :: "nat random_lib" where
  "lcg = \<lparr>seed_generator = (\<lambda>n. nat \<bar>n\<bar> mod 65537),
          randint01 = (\<lambda>g. (int (lcg_next g mod 2), lcg_next g)),
          sample = lcg_sample\<rparr>"

definition world0 :: "nat world" where
  "world0 = \<lparr>global_random = 1, os_entropy = (\<lambda>n. int n + 7)\<rparr>"

section \<open>The heapq module\<close>

text \<open>
  \<^verbatim>\<open>session.py\<close> keeps its pending blocks in a Python list managed by
  \<^verbatim>\<open>heapq.heappush\<close> and \<^verbatim>\<open>heapq.heappop\<close>. The functions below follow the library's
  code on the list, with the comparison \<^verbatim>\<open><\<close> of the items as the parameter \<open>lt\<close>.
  Every index they read is inside the list when they are entered through
  \<open>heappush\<close> and \<open>heappop\<close>.
\<close>

text \<open>The loop of \<^verbatim>\<open>_siftdown\<close>: move \<open>newitem\<close> from \<open>pos\<close> towards the root.\<close>

function siftdown_loop :: "('a \<Rightarrow> 'a \<Rightarrow> bool) \<Rightarrow> 'a list \<Rightarrow> nat \<Rightarrow> nat \<Rightarrow> 'a \<Rightarrow> 'a list" where
  "siftdown_loop lt heap startpos pos newitem =
     (if startpos < pos then
        (let parentpos = (pos - 1) div 2;
             parent = heap ! parentpos
         in if lt newitem parent
            then siftdown_loop lt (heap[pos := parent]) startpos parentpos newitem
            else heap[pos := newitem])
      else heap[pos := newitem])"
  by pat_completeness auto
termination
  by (relation "measure (\<lambda>(lt, heap, startpos, pos, newitem). pos)") auto

declare siftdown_loop.simps [simp del]

definition siftdown :: "('a \<Rightarrow> 'a \<Rightarrow> bool) \<Rightarrow> 'a list \<Rightarrow> nat \<Rightarrow> nat \<Rightarrow> 'a list" where
  "siftdown lt heap startpos pos = siftdown_loop lt heap startpos pos (heap ! pos)"

text \<open>
  The loop of \<^verbatim>\<open>_siftup\<close>: move the smaller child up until a leaf is reached;
  the result is the list and the position of the leaf.
\<close>

function siftup_loop :: "('a \<Rightarrow> 'a \<Rightarrow> bool) \<Rightarrow> 'a list \<Rightarrow> nat \<Rightarrow> nat \<Rightarrow> 'a list \<times> nat" where
  "siftup_loop lt heap endpos pos =
     (let childpos = 2 * pos + 1
      in if childpos < endpos then
           (let rightpos = childpos + 1;
                childpos' = (if rightpos < endpos \<and> \<not> lt (heap ! childpos) (heap ! rightpos)
                             then rightpos else childpos)
            in siftup_loop lt (heap[pos := heap ! childpos']) endpos childpos')
         else (heap, pos))"
  by pat_completeness auto
termination
  by (relation "measure (\<lambda>(lt, heap, endpos, pos). endpos - pos)") (auto split: if_splits)

declare siftup_loop.simps [simp del]

definition siftup :: "('a \<Rightarrow> 'a \<Rightarrow> bool) \<Rightarrow> 'a list \<Rightarrow> nat \<Rightarrow> 'a list" where
  "siftup lt heap pos =
     (let endpos = length heap;
          startpos = pos;
          newitem = heap ! pos
      in case siftup_loop lt heap endpos pos of
           (heap', pos') \<Rightarrow> siftdown lt (heap'[pos' := newitem]) startpos pos')"

definition heappush :: "('a \<Rightarrow> 'a \<Rightarrow> bool) \<Rightarrow> 'a list \<Rightarrow> 'a \<Rightarrow> 'a list" where
  "heappush lt heap item = siftdown lt (heap @ [item]) 0 (length (heap @ [item]) - 1)"

definition heappop :: "('a \<Rightarrow> 'a \<Rightarrow> bool) \<Rightarrow> 'a list \<Rightarrow> error + ('a \<times> 'a list)" where
  "heappop lt heap =
     (if heap = [] then Inl IndexError
      else let lastelt = last heap;
               heap1 = butlast heap
           in if heap1 \<noteq> [] then
                (let returnitem = heap1 ! 0;
                     heap2 = heap1[0 := lastelt]
                 in Inr (returnitem, siftup lt heap2 0))
              else Inr (lastelt, heap1))"

text \<open>
  The items of the session's heap are tuples \<^verbatim>\<open>(block.size, block)\<close>. Python compares
  tuples at the first position where they differ: by size, and between equal sizes
  by the blocks' own \<^verbatim>\<open><\<close>, here \<open>blt\<close>.
\<close>

definition tuple_lt :: "('b \<Rightarrow> 'b \<Rightarrow> bool) \<Rightarrow> nat \<times> 'b \<Rightarrow> nat \<times> 'b \<Rightarrow> bool" where
  "tuple_lt blt x y =
     (if fst x \<noteq> fst y then fst x < fst y
      else if snd x \<noteq> snd y then blt (snd x) (snd y)
      else False)"



section \<open>Sessions (session.py)\<close>

text \<open>
  The classes that \<^verbatim>\<open>session.py\<close> imports from other modules are parameters of the
  model. \<open>Parameters\<close> has the three attributes the session reads. A block is a
  value of a type \<open>'b\<close> (equality on \<open>'b\<close> is the identity of block objects), a
  shuffle of a type \<open>'sh\<close>, and the key given to \<^verbatim>\<open>correct_key\<close> is a reference of a
  type \<open>'k\<close>. The state a call can change is a pair: the session, and the other
  objects of the process (keys, blocks, the channel's peer, generators) of a type \<open>'x\<close>.
\<close>

record 'q Parameters =
  nr_iterations :: int
  block_size_function :: "'q \<Rightarrow> int \<Rightarrow> int"
  sub_block_reuse :: bool

record ('b, 'c, 'q, 's) Session =
  classical_channel :: 'c
  parameters :: "'q Parameters"
  key_index_to_blocks :: "nat \<rightharpoonup> 'b list"
  stats :: 's
  error_blocks :: "(nat \<times> 'b) list"

datatype shuffle_algorithm = SHUFFLE_KEEP_SAME | SHUFFLE_RANDOM

datatype parity = ERRORS_EVEN | ERRORS_ODD

text \<open>
  The operations of \<^verbatim>\<open>Block\<close>, \<^verbatim>\<open>Shuffle\<close>, \<^verbatim>\<open>Key\<close> and the classical channel that the
  session calls: first the attributes of a block that never change, then the
  operations that run code, which take the state and return an exception or their
  result with the state after it.
\<close>

record 'b block_attributes =
  block_size :: "'b \<Rightarrow> nat"
  key_indexes :: "'b \<Rightarrow> nat list"
  is_top_block :: "'b \<Rightarrow> bool"
  block_lt :: "'b \<Rightarrow> 'b \<Rightarrow> bool"

record ('b, 'k, 'sh, 'st) collaborators = "'b block_attributes" +
  error_parity :: "'b \<Rightarrow> 'st \<Rightarrow> error + (parity \<times> 'st)"
  correct_one_bit :: "'b \<Rightarrow> 'st \<Rightarrow> error + (nat option \<times> 'st)"
  create_covering_blocks :: "'k \<Rightarrow> 'sh \<Rightarrow> int \<Rightarrow> 'st \<Rightarrow> error + ('b list \<times> 'st)"
  Shuffle :: "nat \<Rightarrow> shuffle_algorithm \<Rightarrow> 'st \<Rightarrow> error + ('sh \<times> 'st)"
  size_of_key :: "'k \<Rightarrow> 'st \<Rightarrow> nat"
  start_reconciliation :: "'st \<Rightarrow> error + 'st"
  end_reconciliation :: "'st \<Rightarrow> error + 'st"

text \<open>\<^verbatim>\<open>Session(parameters, classical_channel)\<close>; \<open>new_stats\<close> is \<^verbatim>\<open>Stats()\<close>.\<close>

definition Session_init :: "'s \<Rightarrow> 'q Parameters \<Rightarrow> 'c \<Rightarrow> ('b, 'c, 'q, 's) Session" where
  "Session_init new_stats parameters' classical_channel' =
     \<lparr>classical_channel = classical_channel',
      parameters = parameters',
      key_index_to_blocks = Map.empty,
      stats = new_stats,
      error_blocks = []\<rparr>"

text \<open>
  The attributes that the class \<^verbatim>\<open>Key\<close> of \<^verbatim>\<open>key.py\<close> defines; a call of any other
  name on the class raises \<open>AttributeError\<close>.
\<close>

definition Key_attributes :: "string list" where
  "Key_attributes =
     [''__init__'', ''create_random_key'', ''__repr__'', ''__str__'', ''size'',
      ''get_bit'', ''set_bit'', ''flip_bit'', ''copy'', ''difference'']"

definition Key_getattr :: "string \<Rightarrow> error + unit" where
  "Key_getattr name = (if name \<in> set Key_attributes then Inr () else Inl AttributeError)"

text \<open>
  \<^verbatim>\<open>create_mock_session_and_key\<close>. \<open>Shuffle_set_random_seed\<close> and \<open>MockClassicalChannel\<close>
  stand for the class method and the constructor of the modules that are not in
  \<^verbatim>\<open>src\<close>; \<^verbatim>\<open>ORIGINAL_PARAMETERS\<close> is passed by the caller.
\<close>

definition create_mock_session_and_key ::
  "'g random_lib \<Rightarrow> (int \<Rightarrow> 'g world \<Rightarrow> error + 'g world) \<Rightarrow> (Key \<Rightarrow> 'c) \<Rightarrow> 's \<Rightarrow>
   int \<Rightarrow> int option \<Rightarrow> int option \<Rightarrow> 'q Parameters \<Rightarrow> 'g world \<Rightarrow>
   (error + (('b, 'c, 'q, 's) Session \<times> Key)) \<times> 'g world" where
  "create_mock_session_and_key R Shuffle_set_random_seed MockClassicalChannel new_stats
       key_size' key_seed shuffle_seed parameters' w =
     (if \<not> 1 \<le> key_size' then (Inl AssertionError, w)
      else
        case (case key_seed of None \<Rightarrow> Inr () | Some n \<Rightarrow> Key_getattr ''set_random_seed'') of
          Inl e \<Rightarrow> (Inl e, w)
        | Inr _ \<Rightarrow>
            (case (case shuffle_seed of None \<Rightarrow> Inr w | Some n \<Rightarrow> Shuffle_set_random_seed n w) of
               Inl e \<Rightarrow> (Inl e, w)
             | Inr w1 \<Rightarrow>
                 (case create_random_key R key_size' None w1 of
                    (Inl e, w2) \<Rightarrow> (Inl e, w2)
                  | (Inr alice_key, w2) \<Rightarrow>
                      (Inr (Session_init new_stats parameters' (MockClassicalChannel alice_key),
                            alice_key), w2))))"

text \<open>
  The loop of \<^verbatim>\<open>register_block\<close> over \<^verbatim>\<open>block.key_indexes\<close>. A failed assertion
  stops it with the dictionary as far as it got.
\<close>

fun register_block_loop ::
  "'b \<Rightarrow> nat list \<Rightarrow> (nat \<rightharpoonup> 'b list) \<Rightarrow> error option \<times> (nat \<rightharpoonup> 'b list)" where
  "register_block_loop block [] m = (None, m)"
| "register_block_loop block (key_index # rest) m =
     (case m key_index of
        Some blocks \<Rightarrow>
          if block \<in> set blocks then (Some AssertionError, m)
          else register_block_loop block rest (m(key_index \<mapsto> blocks @ [block]))
      | None \<Rightarrow> register_block_loop block rest (m(key_index \<mapsto> [block])))"

definition register_block ::
  "('b, 'z) block_attributes_scheme \<Rightarrow> 'b \<Rightarrow> ('b, 'c, 'q, 's) Session \<Rightarrow>
   error option \<times> ('b, 'c, 'q, 's) Session" where
  "register_block E block self =
     (case register_block_loop block (key_indexes E block) (key_index_to_blocks self) of
        (raised, m) \<Rightarrow> (raised, self\<lparr>key_index_to_blocks := m\<rparr>))"

text \<open>The list that the dictionary holds for a key index, empty when it holds none.\<close>

definition bucket :: "('b, 'c, 'q, 's) Session \<Rightarrow> nat \<Rightarrow> 'b list" where
  "bucket self key_index =
     (case key_index_to_blocks self key_index of None \<Rightarrow> [] | Some blocks \<Rightarrow> blocks)"

definition get_blocks_containing_key_index ::
  "('b, 'c, 'q, 's) Session \<Rightarrow> int \<Rightarrow> error + 'b list" where
  "get_blocks_containing_key_index self key_index =
     (if \<not> 0 \<le> key_index then Inl AssertionError
      else case key_index_to_blocks self (nat key_index) of
             None \<Rightarrow> Inr []
           | Some blocks \<Rightarrow> Inr blocks)"

definition register_error_block ::
  "('b, 'z) block_attributes_scheme \<Rightarrow> 'b \<Rightarrow> ('b, 'c, 'q, 's) Session \<Rightarrow> ('b, 'c, 'q, 's) Session" where
  "register_error_block E block self =
     (if \<not> sub_block_reuse (parameters self) then
        (if \<not> is_top_block E block then self
         else self\<lparr>error_blocks :=
                heappush (tuple_lt (block_lt E)) (error_blocks self) (block_size E block, block)\<rparr>)
      else self\<lparr>error_blocks :=
             heappush (tuple_lt (block_lt E)) (error_blocks self) (block_size E block, block)\<rparr>)"

definition get_registered_error_blocks :: "('b, 'c, 'q, 's) Session \<Rightarrow> 'b list" where
  "get_registered_error_blocks self = map snd (error_blocks self)"

subsection \<open>The correction loops\<close>

text \<open>
  A run of the session is observed through the calls it makes, in order: the
  channel's brackets, the shuffles it builds, the covering blocks it asks for (with
  the blocks it got), every pop of the heap (with the heap before the pop), every
  read of a block's error parity (with the answer) and every call of
  \<^verbatim>\<open>correct_one_bit\<close>.
\<close>

datatype 'b event =
    Start_reconciliation
  | End_reconciliation
  | New_shuffle nat shuffle_algorithm
  | Covering_blocks int "'b list"
  | Heappop "nat \<times> 'b" "(nat \<times> 'b) list"
  | Error_parity 'b parity
  | Correct_one_bit 'b

text \<open>
  A run returns, raises, or is cut off: the \<^verbatim>\<open>while\<close> loop of
  \<^verbatim>\<open>correct_registered_error_blocks\<close> has no bound of its own, so the model gives it
  a number of rounds and reports \<open>Out_of_fuel\<close> when they do not suffice.
\<close>

datatype 'a outcome = is_Return: Return (result: 'a) | Raise error | Out_of_fuel

text \<open>One round of the \<^verbatim>\<open>while\<close> loop, with the calls it makes.\<close>

definition error_block_round ::
  "('b, 'k, 'sh, ('b, 'c, 'q, 's) Session \<times> 'x) collaborators \<Rightarrow>
   ('b, 'c, 'q, 's) Session \<times> 'x \<Rightarrow> (('b, 'c, 'q, 's) Session \<times> 'x) outcome \<times> 'b event list" where
  "error_block_round E st =
     (case heappop (tuple_lt (block_lt E)) (error_blocks (fst st)) of
        Inl e \<Rightarrow> (Raise e, [])
      | Inr (item, heap') \<Rightarrow>
          (let block = snd item;
               popped = Heappop item (error_blocks (fst st));
               st1 = ((fst st)\<lparr>error_blocks := heap'\<rparr>, snd st)
           in case error_parity E block st1 of
                Inl e \<Rightarrow> (Raise e, [popped])
              | Inr (p, st2) \<Rightarrow>
                  if p = ERRORS_ODD then
                    (case correct_one_bit E block st2 of
                       Inl e \<Rightarrow> (Raise e, [popped, Error_parity block p, Correct_one_bit block])
                     | Inr (None, st3) \<Rightarrow>
                         (Raise AssertionError, [popped, Error_parity block p, Correct_one_bit block])
                     | Inr (Some corrected, st3) \<Rightarrow>
                         (Return st3, [popped, Error_parity block p, Correct_one_bit block]))
                  else (Return st2, [popped, Error_parity block p])))"

fun correct_registered_error_blocks ::
  "nat \<Rightarrow> ('b, 'k, 'sh, ('b, 'c, 'q, 's) Session \<times> 'x) collaborators \<Rightarrow>
   ('b, 'c, 'q, 's) Session \<times> 'x \<Rightarrow> (('b, 'c, 'q, 's) Session \<times> 'x) outcome \<times> 'b event list" where
  "correct_registered_error_blocks 0 E st =
     (if error_blocks (fst st) = [] then (Return st, []) else (Out_of_fuel, []))"
| "correct_registered_error_blocks (Suc fuel) E st =
     (if error_blocks (fst st) = [] then (Return st, [])
      else case error_block_round E st of
             (Return st', evs) \<Rightarrow>
               (case correct_registered_error_blocks fuel E st' of
                  (out, evs') \<Rightarrow> (out, evs @ evs'))
           | (out, evs) \<Rightarrow> (out, evs))"

text \<open>The loop \<^verbatim>\<open>for block in blocks\<close> of \<^verbatim>\<open>correct_key\<close>.\<close>

fun visit_blocks ::
  "nat \<Rightarrow> ('b, 'k, 'sh, ('b, 'c, 'q, 's) Session \<times> 'x) collaborators \<Rightarrow> 'b list \<Rightarrow>
   ('b, 'c, 'q, 's) Session \<times> 'x \<Rightarrow> (('b, 'c, 'q, 's) Session \<times> 'x) outcome \<times> 'b event list" where
  "visit_blocks fuel E [] st = (Return st, [])"
| "visit_blocks fuel E (block # rest) st =
     (case correct_one_bit E block st of
        Inl e \<Rightarrow> (Raise e, [Correct_one_bit block])
      | Inr (corrected_shuffle_index, st1) \<Rightarrow>
          (case correct_registered_error_blocks fuel E st1 of
             (Return st2, evs) \<Rightarrow>
               (case visit_blocks fuel E rest st2 of
                  (out, evs') \<Rightarrow> (out, Correct_one_bit block # evs @ evs'))
           | (out, evs) \<Rightarrow> (out, Correct_one_bit block # evs)))"

text \<open>The loop \<^verbatim>\<open>for iteration in range(1, nr_iterations + 1)\<close> of \<^verbatim>\<open>correct_key\<close>.\<close>

fun iterations ::
  "nat \<Rightarrow> ('b, 'k, 'sh, ('b, 'c, 'q, 's) Session \<times> 'x) collaborators \<Rightarrow> 'k \<Rightarrow> 'q \<Rightarrow> int list \<Rightarrow>
   ('b, 'c, 'q, 's) Session \<times> 'x \<Rightarrow> (('b, 'c, 'q, 's) Session \<times> 'x) outcome \<times> 'b event list" where
  "iterations fuel E key estimated_quantum_bit_error_rate [] st = (Return st, [])"
| "iterations fuel E key estimated_quantum_bit_error_rate (iteration # rest) st =
     (let block_size' =
            block_size_function (parameters (fst st)) estimated_quantum_bit_error_rate iteration;
          algorithm = (if iteration = 1 then SHUFFLE_KEEP_SAME else SHUFFLE_RANDOM);
          built = New_shuffle (size_of_key E key st) algorithm
      in case Shuffle E (size_of_key E key st) algorithm st of
           Inl e \<Rightarrow> (Raise e, [built])
         | Inr (shuffle, st1) \<Rightarrow>
             (case create_covering_blocks E key shuffle block_size' st1 of
                Inl e \<Rightarrow> (Raise e, [built])
              | Inr (blocks, st2) \<Rightarrow>
                  (case visit_blocks fuel E blocks st2 of
                     (Return st3, evs) \<Rightarrow>
                       (case iterations fuel E key estimated_quantum_bit_error_rate rest st3 of
                          (out, evs') \<Rightarrow>
                            (out, built # Covering_blocks block_size' blocks # evs @ evs'))
                   | (out, evs) \<Rightarrow> (out, built # Covering_blocks block_size' blocks # evs))))"

text \<open>
  \<^verbatim>\<open>correct_key(key, estimated_quantum_bit_error_rate)\<close>. The result is the returned
  key reference with the state after the call. \<open>fuel\<close> is the number of rounds
  allowed to each call of \<^verbatim>\<open>correct_registered_error_blocks\<close>.
\<close>

definition correct_key ::
  "nat \<Rightarrow> ('b, 'k, 'sh, ('b, 'c, 'q, 's) Session \<times> 'x) collaborators \<Rightarrow> 'k \<Rightarrow> 'q \<Rightarrow>
   ('b, 'c, 'q, 's) Session \<times> 'x \<Rightarrow> ('k \<times> ('b, 'c, 'q, 's) Session \<times> 'x) outcome \<times> 'b event list" where
  "correct_key fuel E key estimated_quantum_bit_error_rate st =
     (case start_reconciliation E st of
        Inl e \<Rightarrow> (Raise e, [Start_reconciliation])
      | Inr st1 \<Rightarrow>
          (case iterations fuel E key estimated_quantum_bit_error_rate
                  [1..nr_iterations (parameters (fst st1))] st1 of
             (Return st2, evs) \<Rightarrow>
               (case end_reconciliation E st2 of
                  Inl e \<Rightarrow> (Raise e, Start_reconciliation # evs @ [End_reconciliation])
                | Inr st3 \<Rightarrow> (Return (key, st3), Start_reconciliation # evs @ [End_reconciliation]))
           | (Raise e, evs) \<Rightarrow> (Raise e, Start_reconciliation # evs)
           | (Out_of_fuel, evs) \<Rightarrow> (Out_of_fuel, Start_reconciliation # evs)))"

text \<open>
  The calls of \<^verbatim>\<open>correct_one_bit\<close> in a run that do not follow at once a read of the
  same block's error parity that answered odd: the blocks of those calls, in order.
  \<open>prev\<close> is the event before the list.
\<close>

fun unchecked_calls :: "'b event option \<Rightarrow> 'b event list \<Rightarrow> 'b list" where
  "unchecked_calls prev [] = []"
| "unchecked_calls prev (Correct_one_bit block # rest) =
     (if prev = Some (Error_parity block ERRORS_ODD) then [] else [block])
       @ unchecked_calls (Some (Correct_one_bit block)) rest"
| "unchecked_calls prev (e # rest) = unchecked_calls (Some e) rest"

text \<open>The blocks that the calls of \<^verbatim>\<open>create_covering_blocks\<close> in a run returned.\<close>

fun covering_blocks_of :: "'b event list \<Rightarrow> 'b list" where
  "covering_blocks_of [] = []"
| "covering_blocks_of (Covering_blocks n blocks # rest) = blocks @ covering_blocks_of rest"
| "covering_blocks_of (e # rest) = covering_blocks_of rest"

text \<open>The algorithms of the shuffles built in a run.\<close>

fun shuffles_of :: "'b event list \<Rightarrow> shuffle_algorithm list" where
  "shuffles_of [] = []"
| "shuffles_of (New_shuffle n algorithm # rest) = algorithm # shuffles_of rest"
| "shuffles_of (e # rest) = shuffles_of rest"

text \<open>The event before the end of a list of events that follows \<open>prev\<close>.\<close>

fun last_event :: "'b event option \<Rightarrow> 'b event list \<Rightarrow> 'b event option" where
  "last_event prev [] = prev"
| "last_event prev (e # rest) = last_event (Some e) rest"

fun odd_check :: "'b event option \<Rightarrow> bool" where
  "odd_check (Some (Error_parity block ERRORS_ODD)) = True"
| "odd_check prev = False"

text \<open>The number of calls of \<^verbatim>\<open>create_covering_blocks\<close> that returned in a run.\<close>

fun passes_of :: "'b event list \<Rightarrow> nat" where
  "passes_of [] = 0"
| "passes_of (Covering_blocks n blocks # rest) = Suc (passes_of rest)"
| "passes_of (e # rest) = passes_of rest"



section \<open>A concrete Cascade\<close>

text \<open>
  Modelled from the spec: the classes \<^verbatim>\<open>Block\<close>, \<^verbatim>\<open>Shuffle\<close> and
  \<^verbatim>\<open>MockClassicalChannel\<close>, which \<^verbatim>\<open>session.py\<close> calls and which are not among the
  sources, and the session's \<^verbatim>\<open>notify_bit_flip\<close>. They follow sections 3 and 4 of the
  spec: a shuffle maps shuffled positions to key indexes; a block is a range of
  shuffled positions; its error parity compares the parity of the key under
  correction with the parity of the reference key held by the mock channel;
  \<^verbatim>\<open>correct_one_bit\<close> does nothing on a block with an even number of errors and
  otherwise bisects down to one bit, flips it and registers the other blocks over
  that bit that became odd. This instance only serves to run the session's code
  on concrete inputs.
\<close>

record shuffle =
  shuffle_id :: nat
  shuffle_to_key :: "nat list"

record block =
  block_key :: nat
  block_shuffle :: shuffle
  start_index :: nat
  end_index :: nat
  top :: bool

record objects =
  keys :: "nat \<Rightarrow> Key"
  generator :: nat
  shuffles_built :: nat

type_synonym cascade_state = "(block, Key, unit, unit) Session \<times> objects"

definition cascade_blocks :: "block block_attributes" where
  "cascade_blocks =
     \<lparr>block_size = (\<lambda>b. end_index b - start_index b),
      key_indexes = (\<lambda>b. map (\<lambda>p. shuffle_to_key (block_shuffle b) ! p)
                               [start_index b..<end_index b]),
      is_top_block = top,
      block_lt = (\<lambda>a b. shuffle_id (block_shuffle a) < shuffle_id (block_shuffle b) \<or>
                          (shuffle_id (block_shuffle a) = shuffle_id (block_shuffle b) \<and>
                           start_index a < start_index b))\<rparr>"

text \<open>
  Modelled from the spec: \<^verbatim>\<open>Block.error_parity\<close> (section 3, parity state): the parity
  of the key under correction over the block's key indexes against the reference
  parity, which the mock channel computes from the reference key. The cache of the
  reference parity and the statistics are left out.
\<close>

fun bits_parity :: "Key \<Rightarrow> nat list \<Rightarrow> error + int" where
  "bits_parity k [] = Inr 0"
| "bits_parity k (i # rest) =
     (case get_bit k (int i) of
        Inl e \<Rightarrow> Inl e
      | Inr v \<Rightarrow> (case bits_parity k rest of Inl e \<Rightarrow> Inl e | Inr p \<Rightarrow> Inr ((v + p) mod 2)))"

definition cascade_error_parity :: "block \<Rightarrow> cascade_state \<Rightarrow> error + (parity \<times> cascade_state)" where
  "cascade_error_parity b st =
     (case bits_parity (keys (snd st) (block_key b)) (key_indexes cascade_blocks b) of
        Inl e \<Rightarrow> Inl e
      | Inr mine \<Rightarrow>
          (case bits_parity (classical_channel (fst st)) (key_indexes cascade_blocks b) of
             Inl e \<Rightarrow> Inl e
           | Inr reference \<Rightarrow> Inr (if mine = reference then ERRORS_EVEN else ERRORS_ODD, st)))"

text \<open>
  Modelled from the spec: \<^verbatim>\<open>notify_bit_flip\<close> (section 4.4): every block over the
  flipped index other than the flipped block is registered as an error block when
  its error parity is now odd.
\<close>

fun notify_bit_flip_loop :: "block \<Rightarrow> block list \<Rightarrow> cascade_state \<Rightarrow> error + cascade_state" where
  "notify_bit_flip_loop flipped [] st = Inr st"
| "notify_bit_flip_loop flipped (b # rest) st =
     (if b = flipped then notify_bit_flip_loop flipped rest st
      else case cascade_error_parity b st of
             Inl e \<Rightarrow> Inl e
           | Inr (p, st1) \<Rightarrow>
               notify_bit_flip_loop flipped rest
                 (if p = ERRORS_ODD
                  then (register_error_block cascade_blocks b (fst st1), snd st1)
                  else st1))"

definition flip_and_notify :: "block \<Rightarrow> cascade_state \<Rightarrow> error + (nat option \<times> cascade_state)" where
  "flip_and_notify b st =
     (let index = shuffle_to_key (block_shuffle b) ! start_index b
      in case flip_bit (keys (snd st) (block_key b)) (int index) of
           Inl e \<Rightarrow> Inl e
         | Inr k \<Rightarrow>
             (let st1 = (fst st, (snd st)\<lparr>keys := (keys (snd st))(block_key b := k)\<rparr>)
              in case get_blocks_containing_key_index (fst st1) (int index) of
                   Inl e \<Rightarrow> Inl e
                 | Inr blocks \<Rightarrow>
                     (case notify_bit_flip_loop b blocks st1 of
                        Inl e \<Rightarrow> Inl e
                      | Inr st2 \<Rightarrow> Inr (Some (start_index b), st2))))"

text \<open>
  Modelled from the spec: \<^verbatim>\<open>Block.correct_one_bit\<close> (section 4.3). With sub-block
  reuse, a half made by bisection is registered with the session once. A block of
  one bit is flipped; a larger block is split into a first half of the size
  rounded up and the rest, and the search goes on in the half with an odd number of
  errors. On a block with an even number of errors the call changes nothing and
  returns None, as the comment in \<^verbatim>\<open>correct_key\<close> has it.
\<close>

definition adopt_sub_block :: "block \<Rightarrow> cascade_state \<Rightarrow> error + cascade_state" where
  "adopt_sub_block b st =
     (if \<not> sub_block_reuse (parameters (fst st)) then Inr st
      else case get_blocks_containing_key_index (fst st)
                  (int (shuffle_to_key (block_shuffle b) ! start_index b)) of
             Inl e \<Rightarrow> Inl e
           | Inr blocks \<Rightarrow>
               if b \<in> set blocks then Inr st
               else (case register_block cascade_blocks b (fst st) of
                       (Some e, self) \<Rightarrow> Inl e
                     | (None, self) \<Rightarrow> Inr (self, snd st)))"

function bisect :: "block \<Rightarrow> cascade_state \<Rightarrow> error + (nat option \<times> cascade_state)" where
  "bisect b st =
     (if end_index b \<le> start_index b then Inl AssertionError
      else if end_index b - start_index b = 1 then flip_and_notify b st
      else
        let middle = start_index b + (end_index b - start_index b + 1) div 2;
            left = b\<lparr>end_index := middle, top := False\<rparr>;
            right = b\<lparr>start_index := middle, top := False\<rparr>
        in case adopt_sub_block left st of
             Inl e \<Rightarrow> Inl e
           | Inr st1 \<Rightarrow>
               (case adopt_sub_block right st1 of
                  Inl e \<Rightarrow> Inl e
                | Inr st2 \<Rightarrow>
                    (case cascade_error_parity left st2 of
                       Inl e \<Rightarrow> Inl e
                     | Inr (p, st3) \<Rightarrow>
                         if p = ERRORS_ODD then bisect left st3 else bisect right st3)))"
  by pat_completeness auto
termination
  by (relation "measure (\<lambda>(b, st). end_index b - start_index b)") auto

declare bisect.simps [simp del]

definition cascade_correct_one_bit :: "block \<Rightarrow> cascade_state \<Rightarrow> error + (nat option \<times> cascade_state)" where
  "cascade_correct_one_bit b st =
     (case cascade_error_parity b st of
        Inl e \<Rightarrow> Inl e
      | Inr (p, st1) \<Rightarrow> if p = ERRORS_ODD then bisect b st1 else Inr (None, st1))"

text \<open>
  Modelled from the spec: \<^verbatim>\<open>Shuffle\<close> (section 4.2), the identity or a permutation
  drawn with the generator, and \<^verbatim>\<open>Block.create_covering_blocks\<close> (section 4.3),
  which cuts the shuffled positions into top-level blocks of the given size, the
  last one shorter if need be, and registers each with the session.
\<close>

definition cascade_shuffle ::
  "nat \<Rightarrow> shuffle_algorithm \<Rightarrow> cascade_state \<Rightarrow> error + (shuffle \<times> cascade_state)" where
  "cascade_shuffle n algorithm st =
     (case (case algorithm of
              SHUFFLE_KEEP_SAME \<Rightarrow> ([0..<n], generator (snd st))
            | SHUFFLE_RANDOM \<Rightarrow> lcg_sample (generator (snd st)) [0..<n] n) of
        (positions, g) \<Rightarrow>
          Inr (\<lparr>shuffle_id = shuffles_built (snd st), shuffle_to_key = positions\<rparr>,
               (fst st, (snd st)\<lparr>generator := g, shuffles_built := Suc (shuffles_built (snd st))\<rparr>)))"

fun register_blocks ::
  "block list \<Rightarrow> (block, Key, unit, unit) Session \<Rightarrow> error option \<times> (block, Key, unit, unit) Session" where
  "register_blocks [] self = (None, self)"
| "register_blocks (b # rest) self =
     (case register_block cascade_blocks b self of
        (Some e, self') \<Rightarrow> (Some e, self')
      | (None, self') \<Rightarrow> register_blocks rest self')"

definition cascade_create_covering_blocks ::
  "nat \<Rightarrow> shuffle \<Rightarrow> int \<Rightarrow> cascade_state \<Rightarrow> error + (block list \<times> cascade_state)" where
  "cascade_create_covering_blocks key sh block_size' st =
     (if \<not> 1 \<le> block_size' then Inl AssertionError
      else
        let n = length (shuffle_to_key sh);
            width = nat block_size';
            blocks = map (\<lambda>j. \<lparr>block_key = key, block_shuffle = sh, start_index = j * width,
                                 end_index = min (j * width + width) n, top = True\<rparr>)
                         [0..<(n + width - 1) div width]
        in case register_blocks blocks (fst st) of
             (Some e, self) \<Rightarrow> Inl e
           | (None, self) \<Rightarrow> Inr (blocks, (self, snd st)))"

definition cascade :: "(block, nat, shuffle, cascade_state) collaborators" where
  "cascade =
     \<lparr>block_size = block_size cascade_blocks,
      key_indexes = key_indexes cascade_blocks,
      is_top_block = is_top_block cascade_blocks,
      block_lt = block_lt cascade_blocks,
      error_parity = cascade_error_parity,
      correct_one_bit = cascade_correct_one_bit,
      create_covering_blocks = cascade_create_covering_blocks,
      Shuffle = cascade_shuffle,
      size_of_key = (\<lambda>key st. key_size (keys (snd st) key)),
      start_reconciliation = Inr,
      end_reconciliation = Inr\<rparr>"

text \<open>
  A session over the reference key 1011 with two passes of block size 2, a state
  in which the key under correction is 0111 (errors at indexes 0 and 1, which the
  first pass puts in one block), and a state in which it has no error.
\<close>

definition two_passes :: "unit Parameters" where
  "two_passes = \<lparr>nr_iterations = 2,
                 block_size_function = (\<lambda>q iteration. 2),
                 sub_block_reuse = False\<rparr>"

definition alice :: Key where
  "alice = \<lparr>key_size = 4, key_bits = [(0, 1), (1, 0), (2, 1), (3, 1)]\<rparr>"

definition bob :: Key where
  "bob = \<lparr>key_size = 4, key_bits = [(0, 0), (1, 1), (2, 1), (3, 1)]\<rparr>"

definition noisy_state :: cascade_state where
  "noisy_state = (Session_init () two_passes alice,
                  \<lparr>keys = (\<lambda>r. bob), generator = 1, shuffles_built = 0\<rparr>)"

definition clean_state :: cascade_state where
  "clean_state = (Session_init () two_passes alice,
                  \<lparr>keys = (\<lambda>r. alice), generator = 1, shuffles_built = 0\<rparr>)"

text \<open>
  Blocks over the first shuffle of a session and over the second one that the
  generator gives from the state 1, and a state in which four blocks were
  registered as error blocks by hand, one of them twice: the whole key, its first
  bit (twice) and its first half.
\<close>

definition keep_same4 :: shuffle where
  "keep_same4 = \<lparr>shuffle_id = 0, shuffle_to_key = [0, 1, 2, 3]\<rparr>"

definition top_block :: "nat \<Rightarrow> nat \<Rightarrow> block" where
  "top_block first last' =
     \<lparr>block_key = 0, block_shuffle = keep_same4, start_index = first, end_index = last', top = True\<rparr>"

definition random4 :: shuffle where
  "random4 = \<lparr>shuffle_id = 1, shuffle_to_key = [1, 3, 2, 0]\<rparr>"

definition second_block :: "nat \<Rightarrow> nat \<Rightarrow> block" where
  "second_block first last' =
     \<lparr>block_key = 0, block_shuffle = random4, start_index = first, end_index = last', top = True\<rparr>"

definition queued_state :: cascade_state where
  "queued_state =
     (register_error_block cascade_blocks (top_block 0 2)
        (register_error_block cascade_blocks (top_block 0 1)
           (register_error_block cascade_blocks (top_block 0 1)
              (register_error_block cascade_blocks (top_block 0 4) (fst noisy_state)))),
      snd noisy_state)"

text \<open>
  The same four registrations in the state whose key has no error: every entry of
  the heap is stale.
\<close>

definition stale_state :: cascade_state where
  "stale_state =
     (register_error_block cascade_blocks (top_block 0 2)
        (register_error_block cascade_blocks (top_block 0 1)
           (register_error_block cascade_blocks (top_block 0 1)
              (register_error_block cascade_blocks (top_block 0 4) (fst clean_state)))),
      snd clean_state)"

section \<open>Properties of keys\<close>

lemma difference_loop_sym:
  "difference_loop a b is d = difference_loop b a is d"
  by (induction "is" arbitrary: d) (auto split: option.splits)

lemma difference_loop_lower:
  "difference_loop a b is d = Inr r \<Longrightarrow> d \<le> r"
proof (induction "is" arbitrary: d)
  case Nil
  then show ?case by simp
next
  case (Cons i rest)
  then show ?case
    by (fastforce split: option.splits if_splits)
qed

lemma difference_loop_zero:
  "difference_loop a b is 0 = Inr 0 \<longleftrightarrow>
     (\<forall>i \<in> set is. \<exists>v. map_of (key_bits a) i = Some v \<and> map_of (key_bits b) i = Some v)"
proof (induction "is")
  case Nil
  then show ?case by simp
next
  case (Cons i rest)
  show ?case
  proof (cases "map_of (key_bits a) i")
    case None
    then show ?thesis by simp
  next
    case xa: (Some x)
    show ?thesis
    proof (cases "map_of (key_bits b) i")
      case None
      then show ?thesis using xa by simp
    next
      case yb: (Some y)
      show ?thesis
      proof (cases "x = y")
        case True
        then show ?thesis using xa yb Cons.IH by simp
      next
        case False
        have "difference_loop a b rest 1 \<noteq> Inr 0"
          using difference_loop_lower [of a b rest 1 0] by auto
        then show ?thesis using xa yb False by simp
      qed
    qed
  qed
qed

lemma well_formed_lookup:
  "well_formed k \<Longrightarrow> i < key_size k \<Longrightarrow> \<exists>v. map_of (key_bits k) i = Some v"
proof -
  assume wf: "well_formed k" and i: "i < key_size k"
  have "i \<in> fst ` set (key_bits k)"
    using wf i unfolding well_formed_def
    by (metis atLeast0LessThan lessThan_iff list.set_map set_upt)
  then show ?thesis
    by (metis domD dom_map_of_conv_image_fst)
qed

text \<open>
  C9. For keys of equal size, \<^verbatim>\<open>difference\<close> is symmetric and is zero exactly when
  the two keys hold the same bit at every position; for keys of different sizes it
  fails with an assertion error.
\<close>

theorem difference_symmetric_zero_iff_equal:
  "difference a b = difference b a \<and>
   (well_formed a \<and> well_formed b \<and> key_size a = key_size b \<longrightarrow>
      (difference a b = Inr 0 \<longleftrightarrow>
         (\<forall>i < key_size a. map_of (key_bits a) i = map_of (key_bits b) i))) \<and>
   (key_size a \<noteq> key_size b \<longrightarrow> difference a b = Inl AssertionError)"
proof -
  have sym: "difference a b = difference b a"
    by (simp add: difference_def difference_loop_sym [of a b])
  have zero: "difference a b = Inr 0 \<longleftrightarrow>
      (\<forall>i < key_size a. map_of (key_bits a) i = map_of (key_bits b) i)"
    if wf: "well_formed a" "well_formed b" and eq: "key_size a = key_size b"
  proof -
    have "difference a b = Inr 0 \<longleftrightarrow>
        (\<forall>i < key_size a. \<exists>v. map_of (key_bits a) i = Some v \<and> map_of (key_bits b) i = Some v)"
      using eq by (auto simp: difference_def difference_loop_zero)
    also have "\<dots> \<longleftrightarrow> (\<forall>i < key_size a. map_of (key_bits a) i = map_of (key_bits b) i)"
      using well_formed_lookup [OF wf(1)] by fastforce
    finally show ?thesis .
  qed
  have fails: "difference a b = Inl AssertionError" if "key_size a \<noteq> key_size b"
    using that by (simp add: difference_def)
  from sym zero fails show ?thesis by blast
qed

theorem difference_symmetric_zero_iff_equal_witness:
  "well_formed \<lparr>key_size = 2, key_bits = [(0, 1), (1, 0)]\<rparr> \<and>
   well_formed \<lparr>key_size = 2, key_bits = [(0, 1), (1, 1)]\<rparr> \<and>
   difference \<lparr>key_size = 2, key_bits = [(0, 1), (1, 0)]\<rparr>
              \<lparr>key_size = 2, key_bits = [(0, 1), (1, 1)]\<rparr> = Inr 1 \<and>
   difference \<lparr>key_size = 2, key_bits = [(0, 1), (1, 1)]\<rparr>
              \<lparr>key_size = 2, key_bits = [(0, 1), (1, 0)]\<rparr> = Inr 1 \<and>
   difference \<lparr>key_size = 2, key_bits = [(0, 1), (1, 0)]\<rparr>
              \<lparr>key_size = 2, key_bits = [(0, 1), (1, 0)]\<rparr> = Inr 0 \<and>
   difference \<lparr>key_size = 2, key_bits = [(0, 1), (1, 0)]\<rparr>
              \<lparr>key_size = 1, key_bits = [(0, 1)]\<rparr> = Inl AssertionError"
  using difference_symmetric_zero_iff_equal
          [of "\<lparr>key_size = 2, key_bits = [(0, 1), (1, 0)]\<rparr>"
              "\<lparr>key_size = 2, key_bits = [(0, 1), (1, 1)]\<rparr>"]
  by (simp add: well_formed_def difference_def upt_rec)


lemma map_fst_fill_random:
  "map fst (fill_random R is g bits) = map fst (fold (\<lambda>i al. AList.update i 0 al) is bits)"
proof (induction "is" arbitrary: g bits)
  case Nil
  then show ?case by simp
next
  case (Cons i rest)
  have same: "map fst (fold (\<lambda>i al. AList.update i (0::int) al) rest al1) =
              map fst (fold (\<lambda>i al. AList.update i 0 al) rest al2)"
    if "map fst al1 = map fst al2" for al1 al2 :: "(nat \<times> int) list"
    using that
  proof (induction rest arbitrary: al1 al2)
    case Nil
    then show ?case by simp
  next
    case (Cons j more)
    have "map fst (AList.update j 0 al1) = map fst (AList.update j 0 al2)"
      using Cons.prems by (simp add: AList.update_keys)
    from Cons.IH [OF this] show ?case by simp
  qed
  obtain b g' where r: "randint01 R g = (b, g')" by (cases "randint01 R g")
  have "map fst (AList.update i b bits) = map fst (AList.update i 0 bits)"
    by (simp add: AList.update_keys)
  from same [OF this] show ?case
    using r Cons.IH [of g' "AList.update i b bits"] by simp
qed

lemma map_fst_fold_update_upt:
  "map fst al = [0..<m] \<Longrightarrow>
   map fst (fold (\<lambda>i al. AList.update i (0::int) al) [m..<m + n] al) = [0..<m + n]"
proof (induction n arbitrary: m al)
  case 0
  then show ?case by simp
next
  case (Suc n)
  have step: "map fst (AList.update m (0::int) al) = [0..<Suc m]"
    using Suc.prems by (simp add: AList.update_keys)
  have "[m..<m + Suc n] = m # [Suc m..<Suc m + n]"
    by (simp add: upt_rec)
  then show ?case using Suc.IH [OF step] by simp
qed

lemma create_random_key_well_formed:
  "create_random_key R size' seed w = (Inr k, w') \<Longrightarrow> well_formed k \<and> key_size k = nat size'"
proof -
  assume a: "create_random_key R size' seed w = (Inr k, w')"
  obtain g w1 where r: "Random R seed w = (g, w1)" by (cases "Random R seed w")
  have k: "k = \<lparr>key_size = nat size', key_bits = fill_random R [0..<nat size'] g []\<rparr>"
    using a r by (auto simp: create_random_key_def Key_init_def split: if_splits)
  have "map fst (fill_random R [0..<nat size'] g []) = [0..<nat size']"
    using map_fst_fold_update_upt [of "[]" 0 "nat size'"]
    by (simp add: map_fst_fill_random)
  then show ?thesis using k by (simp add: well_formed_def)
qed

text \<open>
  C8. For a size that is not negative and an integer seed, \<^verbatim>\<open>create_random_key\<close>
  returns the same key whatever the hidden state of the process is (so two calls
  with the same size and seed give identical keys), and it leaves the hidden
  state as it found it: the bits come from the local generator made from the seed.
\<close>

theorem create_random_key_same_seed_same_key:
  "0 \<le> size' \<Longrightarrow>
   \<exists>k. create_random_key R size' (Some seed) w1 = (Inr k, w1) \<and>
       create_random_key R size' (Some seed) w2 = (Inr k, w2) \<and>
       key_size k = nat size' \<and> well_formed k"
proof -
  assume nonneg: "0 \<le> size'"
  define k where
    "k = \<lparr>key_size = nat size',
          key_bits = fill_random R [0..<nat size'] (seed_generator R seed) []\<rparr>"
  have c1: "create_random_key R size' (Some seed) w1 = (Inr k, w1)"
    using nonneg by (simp add: create_random_key_def Random_def Key_init_def k_def)
  have c2: "create_random_key R size' (Some seed) w2 = (Inr k, w2)"
    using nonneg by (simp add: create_random_key_def Random_def Key_init_def k_def)
  from create_random_key_well_formed [OF c1] c1 c2 show ?thesis by blast
qed

theorem create_random_key_same_seed_same_key_witness:
  "(0::int) \<le> 3 \<and>
   (\<exists>k. create_random_key lcg 3 (Some 42) world0 = (Inr k, world0) \<and>
        create_random_key lcg 3 (Some 42) (world0\<lparr>global_random := 99\<rparr>)
          = (Inr k, world0\<lparr>global_random := 99\<rparr>) \<and>
        key_size k = nat 3 \<and> well_formed k)"
  using create_random_key_same_seed_same_key
          [of 3 lcg 42 world0 "world0\<lparr>global_random := 99\<rparr>"]
  by simp

subsection \<open>What copy does on every key\<close>

lemma apply_noise_flips:
  "distinct is \<Longrightarrow> set is \<subseteq> set (map fst bits) \<Longrightarrow>
   \<exists>bits'. apply_noise bits is = (None, bits') \<and> map fst bits' = map fst bits \<and>
     (\<forall>i. map_of bits' i = (if i \<in> set is then map_option (\<lambda>v. 1 - v) (map_of bits i)
                            else map_of bits i))"
proof (induction "is" arbitrary: bits)
  case Nil
  then show ?case by simp
next
  case (Cons index rest)
  have "index \<in> fst ` set bits" using Cons.prems(2) by simp
  then obtain v where v: "map_of bits index = Some v"
    by (metis domD dom_map_of_conv_image_fst)
  define bits1 where "bits1 = AList.update index (1 - v) bits"
  have keys1: "map fst bits1 = map fst bits"
    using Cons.prems(2) by (simp add: bits1_def AList.update_keys)
  have look1: "map_of bits1 = (map_of bits)(index \<mapsto> 1 - v)"
    by (simp add: bits1_def AList.update_conv')
  have "distinct rest" "set rest \<subseteq> set (map fst bits1)"
    using Cons.prems keys1 by simp_all
  from Cons.IH [OF this]
  obtain bits' where r: "apply_noise bits1 rest = (None, bits')"
    and k: "map fst bits' = map fst bits1"
    and m: "\<forall>i. map_of bits' i = (if i \<in> set rest then map_option (\<lambda>v. 1 - v) (map_of bits1 i)
                                  else map_of bits1 i)"
    by blast
  have "apply_noise bits (index # rest) = (None, bits')"
    using v r by (simp add: bits1_def)
  moreover have "\<forall>i. map_of bits' i =
        (if i \<in> set (index # rest) then map_option (\<lambda>v. 1 - v) (map_of bits i) else map_of bits i)"
    using m look1 v Cons.prems(1) by auto
  ultimately show ?case using k keys1 by simp
qed

lemma difference_loop_count:
  "\<forall>i \<in> set is. (\<exists>x. map_of (key_bits a) i = Some x) \<and> (\<exists>y. map_of (key_bits b) i = Some y) \<Longrightarrow>
   difference_loop a b is d
     = Inr (d + int (length (filter (\<lambda>i. map_of (key_bits a) i \<noteq> map_of (key_bits b) i) is)))"
proof (induction "is" arbitrary: d)
  case Nil
  then show ?case by simp
next
  case (Cons i rest)
  obtain x y where xy: "map_of (key_bits a) i = Some x" "map_of (key_bits b) i = Some y"
    using Cons.prems by auto
  have rest: "\<forall>i \<in> set rest. (\<exists>x. map_of (key_bits a) i = Some x) \<and> (\<exists>y. map_of (key_bits b) i = Some y)"
    using Cons.prems by simp
  show ?case using xy Cons.IH [OF rest] by simp
qed

text \<open>
  For every well-formed key and every count from 0 to its size, with a sample
  drawn without replacement, \<^verbatim>\<open>copy\<close> returns the key as it was passed, and the
  receiver after the call is well-formed and differs from what it was at exactly
  that many positions.
\<close>

lemma copy_returns_receiver_and_flips_it:
  assumes sample: "sample_without_replacement R"
    and wf: "well_formed self"
    and count: "0 \<le> error_count" "error_count \<le> int (key_size self)"
  shows "\<exists>self' w'. copy R self error_count w = (Inr self, self', w') \<and>
           well_formed self' \<and> key_size self' = key_size self \<and>
           difference self' self = Inr error_count"
proof -
  define population where "population = map fst (key_bits self)"
  have pop: "population = [0..<key_size self]"
    using wf by (simp add: population_def well_formed_def)
  have enough: "nat error_count \<le> length population" using count pop by simp
  obtain picked g' where s: "sample R (global_random w) population (nat error_count) = (picked, g')"
    by (cases "sample R (global_random w) population (nat error_count)")
  have len: "length picked = nat error_count" and sub: "mset picked \<subseteq># mset population"
    using sample enough s unfolding sample_without_replacement_def
    by (metis fst_conv)+
  have d: "distinct picked"
  proof -
    have "count (mset picked) a = (if a \<in> set picked then 1 else 0)" for a
    proof -
      have le1: "count (mset picked) a \<le> count (mset population) a"
        using sub by (rule mset_subset_eq_count)
      have "distinct population" using pop by simp
      then have le2: "count (mset population) a \<le> 1"
        by (simp add: distinct_count_atmost_1)
      show ?thesis
      proof (cases "a \<in> set picked")
        case True
        then have "count (mset picked) a \<noteq> 0" by simp
        then have "count (mset picked) a = 1" using le1 le2 by linarith
        then show ?thesis using True by simp
      next
        case False
        then show ?thesis by simp
      qed
    qed
    then show ?thesis by (simp add: distinct_count_atmost_1)
  qed
  have inside: "set picked \<subseteq> set (map fst (key_bits self))"
    using sub by (metis population_def set_mset_mono set_mset_mset)
  from apply_noise_flips [OF d inside]
  obtain bits' where n: "apply_noise (key_bits self) picked = (None, bits')"
    and k: "map fst bits' = map fst (key_bits self)"
    and m: "\<forall>i. map_of bits' i = (if i \<in> set picked
                                   then map_option (\<lambda>v. 1 - v) (map_of (key_bits self) i)
                                   else map_of (key_bits self) i)"
    by blast
  define self' where "self' = self\<lparr>key_bits := bits'\<rparr>"
  have run: "copy R self error_count w = (Inr self, self', w\<lparr>global_random := g'\<rparr>)"
    using count enough s n
    by (simp add: copy_def Key_init_def population_def [symmetric] self'_def Let_def)
  have wf': "well_formed self'" using wf k by (simp add: well_formed_def self'_def)
  have present: "\<exists>x. map_of (key_bits self) i = Some x" if "i < key_size self" for i
    using well_formed_lookup [OF wf that] .
  have differ: "(map_of (key_bits self') i \<noteq> map_of (key_bits self) i) = (i \<in> set picked)"
    if i: "i < key_size self" for i
  proof -
    obtain x where x: "map_of (key_bits self) i = Some x" using present [OF i] by blast
    have "1 - x \<noteq> x" by arith
    then show ?thesis using m x by (simp add: self'_def)
  qed
  have all: "\<forall>i \<in> set [0..<key_size self].
               (\<exists>x. map_of (key_bits self') i = Some x) \<and> (\<exists>y. map_of (key_bits self) i = Some y)"
    using present m by (auto simp: self'_def)
  have "filter (\<lambda>i. map_of (key_bits self') i \<noteq> map_of (key_bits self) i) [0..<key_size self]
          = filter (\<lambda>i. i \<in> set picked) [0..<key_size self]"
    using differ by (intro filter_cong) auto
  moreover have "length (filter (\<lambda>i. i \<in> set picked) [0..<key_size self]) = length picked"
  proof -
    have "set (map fst (key_bits self)) = {0..<key_size self}"
      using wf unfolding well_formed_def by (metis set_upt)
    then have "set picked \<subseteq> {0..<key_size self}" using inside by blast
    then have "{i. i \<in> set picked} \<inter> set [0..<key_size self] = set picked" by auto
    then show ?thesis using d by (simp add: distinct_length_filter distinct_card)
  qed
  ultimately have "difference self' self = Inr error_count"
    using difference_loop_count [OF all, of 0] len count
    by (simp add: difference_def self'_def)
  then show ?thesis using run wf' by (auto simp: self'_def)
qed

lemma lcg_sample_without_replacement:
  "k \<le> length population \<Longrightarrow>
   length (fst (lcg_sample g population k)) = k \<and>
   mset (fst (lcg_sample g population k)) \<subseteq># mset population"
proof (induction g population k rule: lcg_sample.induct)
  case (1 g population)
  then show ?case by simp
next
  case (2 g population k)
  then have ne: "population \<noteq> []" by auto
  define g' where "g' = lcg_next g"
  define j where "j = g' mod length population"
  define others where "others = take j population @ drop (Suc j) population"
  have j: "j < length population" using ne by (simp add: j_def)
  have len: "k \<le> length others" using "2.prems" j by (simp add: others_def)
  obtain picked g'' where r: "lcg_sample g' others k = (picked, g'')"
    by (cases "lcg_sample g' others k")
  have ih: "length picked = k \<and> mset picked \<subseteq># mset others"
    using "2.IH" [OF ne g'_def j_def, folded others_def, OF len] r by simp
  have whole: "mset population = add_mset (population ! j) (mset others)"
    using j unfolding others_def
    by (metis append_take_drop_id Cons_nth_drop_Suc mset.simps(2) mset_append union_mset_add_mset_right)
  have "lcg_sample g population (Suc k) = (population ! j # picked, g'')"
    using ne r by (simp add: g'_def j_def others_def Let_def)
  then show ?case using ih whole by simp
qed

lemma lcg_samples_without_replacement: "sample_without_replacement lcg"
  by (simp add: sample_without_replacement_def lcg_def lcg_sample_without_replacement)

subsection \<open>The two claims about copy\<close>

text \<open>
  C2. \<^verbatim>\<open>copy\<close> is documented to flip the bits of the copy, and the claim is that the
  receiver keeps its bits. The noise loop stores into the receiver's dictionary:
  on the one-bit key 0 with an error count of 1, the receiver holds 1 after the call.
\<close>

theorem copy_flips_bits_of_receiver:
  "fst (snd (copy lcg \<lparr>key_size = 1, key_bits = [(0, 0)]\<rparr> 1 world0))
     = \<lparr>key_size = 1, key_bits = [(0, 1)]\<rparr>"
  by (simp add: copy_def lcg_def world0_def lcg_next_def Key_init_def)

text \<open>
  C1. The key that \<^verbatim>\<open>copy\<close> returns is the deep copy taken before the noise loop,
  and the loop never touches it: on the one-bit key 0 with an error count of 1 the
  returned key is the one-bit key 0, at distance 0 from the key as it was passed in.
\<close>

theorem copy_returns_key_without_noise:
  "fst (copy lcg \<lparr>key_size = 1, key_bits = [(0, 0)]\<rparr> 1 world0)
     = Inr \<lparr>key_size = 1, key_bits = [(0, 0)]\<rparr> \<and>
   difference \<lparr>key_size = 1, key_bits = [(0, 0)]\<rparr> \<lparr>key_size = 1, key_bits = [(0, 0)]\<rparr> = Inr 0"
  by (simp add: copy_def lcg_def world0_def lcg_next_def Key_init_def difference_def)

section \<open>Running the concrete Cascade\<close>

text \<open>
  The equations that evaluate the definitions on concrete inputs. Recursion on a
  count written as a numeral gets an equation of its own.
\<close>

lemma lcg_sample_numeral:
  "lcg_sample g population (numeral v) =
     (if population = [] then ([], g)
      else let g' = lcg_next g; j = g' mod length population
           in case lcg_sample g' (take j population @ drop (Suc j) population) (pred_numeral v) of
                (picked, g'') \<Rightarrow> (population ! j # picked, g''))"
  by (simp add: numeral_eq_Suc)

lemma correct_registered_error_blocks_numeral:
  "correct_registered_error_blocks (numeral v) E st =
     (if error_blocks (fst st) = [] then (Return st, [])
      else case error_block_round E st of
             (Return st', evs) \<Rightarrow>
               (case correct_registered_error_blocks (pred_numeral v) E st' of
                  (out, evs') \<Rightarrow> (out, evs @ evs'))
           | (out, evs) \<Rightarrow> (out, evs))"
  by (simp add: numeral_eq_Suc)

lemmas run = correct_key_def cascade_def cascade_blocks_def noisy_state_def clean_state_def
  two_passes_def alice_def bob_def Session_init_def cascade_shuffle_def
  cascade_create_covering_blocks_def register_block_def cascade_correct_one_bit_def
  cascade_error_parity_def get_bit_def flip_bit_def flip_and_notify_def adopt_sub_block_def
  get_blocks_containing_key_index_def register_error_block_def heappush_def heappop_def
  siftdown_def siftup_def tuple_lt_def error_block_round_def lcg_next_def
  siftdown_loop.simps siftup_loop.simps bisect.simps upt_rec upto.simps Let_def
  numeral_2_eq_2 [symmetric] numeral_3_eq_3 [symmetric]
  keep_same4_def top_block_def queued_state_def bucket_def random4_def second_block_def
  stale_state_def
  lcg_sample_numeral correct_registered_error_blocks_numeral

section \<open>Properties of the session's registry\<close>

lemma register_block_loop_fails:
  "\<exists>i \<in> set is. \<exists>blocks. m i = Some blocks \<and> block \<in> set blocks \<Longrightarrow>
   fst (register_block_loop block is m) = Some AssertionError"
proof (induction "is" arbitrary: m)
  case Nil
  then show ?case by simp
next
  case (Cons i rest)
  show ?case
  proof (cases "m i")
    case None
    have "\<exists>j \<in> set rest. \<exists>blocks. (m(i \<mapsto> [block])) j = Some blocks \<and> block \<in> set blocks"
      using Cons.prems None by (auto split: if_splits)
    from Cons.IH [OF this]
    have a: "fst (register_block_loop block rest (m(i \<mapsto> [block]))) = Some AssertionError" .
    have b: "register_block_loop block (i # rest) m
               = register_block_loop block rest (m(i \<mapsto> [block]))"
      using None by simp
    show ?thesis unfolding b by (rule a)
  next
    case (Some blocks)
    show ?thesis
    proof (cases "block \<in> set blocks")
      case True
      then show ?thesis using Some by simp
    next
      case False
      have "\<exists>j \<in> set rest. \<exists>bs. (m(i \<mapsto> blocks @ [block])) j = Some bs \<and> block \<in> set bs"
        using Cons.prems Some False by (auto split: if_splits)
      from Cons.IH [OF this]
      have a: "fst (register_block_loop block rest (m(i \<mapsto> blocks @ [block])))
                 = Some AssertionError" .
      have b: "register_block_loop block (i # rest) m
                 = register_block_loop block rest (m(i \<mapsto> blocks @ [block]))"
        using Some False by simp
      show ?thesis unfolding b by (rule a)
    qed
  qed
qed

lemma register_block_loop_appends:
  "distinct is \<Longrightarrow>
   \<forall>i \<in> set is. \<forall>blocks. m i = Some blocks \<longrightarrow> block \<notin> set blocks \<Longrightarrow>
   \<exists>m'. register_block_loop block is m = (None, m') \<and>
        (\<forall>i. m' i = (if i \<in> set is
                       then Some ((case m i of None \<Rightarrow> [] | Some blocks \<Rightarrow> blocks) @ [block])
                       else m i))"
proof (induction "is" arbitrary: m)
  case Nil
  then show ?case by simp
next
  case (Cons i rest)
  define m1 where "m1 = m(i \<mapsto> (case m i of None \<Rightarrow> [] | Some blocks \<Rightarrow> blocks) @ [block])"
  have step: "register_block_loop block (i # rest) m = register_block_loop block rest m1"
    using Cons.prems(2) by (auto simp: m1_def split: option.splits)
  have fresh: "\<forall>j \<in> set rest. \<forall>blocks. m1 j = Some blocks \<longrightarrow> block \<notin> set blocks"
    using Cons.prems by (auto simp: m1_def)
  from Cons.IH [OF _ fresh] Cons.prems(1)
  obtain m' where m': "register_block_loop block rest m1 = (None, m')"
    and all: "\<forall>j. m' j = (if j \<in> set rest
                       then Some ((case m1 j of None \<Rightarrow> [] | Some blocks \<Rightarrow> blocks) @ [block])
                       else m1 j)"
    by auto
  have "\<forall>j. m' j = (if j \<in> set (i # rest)
                       then Some ((case m j of None \<Rightarrow> [] | Some blocks \<Rightarrow> blocks) @ [block])
                       else m j)"
    using all Cons.prems(1) by (auto simp: m1_def)
  then show ?case using step m' by auto
qed


lemma register_block_loop_eq:
  "register_block E block self =
     (fst (register_block_loop block (key_indexes E block) (key_index_to_blocks self)),
      self\<lparr>key_index_to_blocks :=
             snd (register_block_loop block (key_indexes E block) (key_index_to_blocks self))\<rparr>)"
  by (simp add: register_block_def split: prod.splits)

text \<open>
  C5. For a block whose key indexes are distinct, \<^verbatim>\<open>register_block\<close> fails with an
  assertion error when the block is already in the bucket of one of its key
  indexes; otherwise it appends the block to the bucket of each of its key indexes
  and changes nothing else, so that the block stands exactly once in each of them.
\<close>

theorem register_block_appends_or_fails:
  assumes "distinct (key_indexes E block)"
  shows "if \<exists>i \<in> set (key_indexes E block). block \<in> set (bucket self i)
         then fst (register_block E block self) = Some AssertionError
         else fst (register_block E block self) = None \<and>
              (\<forall>i. bucket (snd (register_block E block self)) i =
                     (if i \<in> set (key_indexes E block) then bucket self i @ [block]
                      else bucket self i)) \<and>
              (\<forall>i \<in> set (key_indexes E block).
                  count_list (bucket (snd (register_block E block self)) i) block = 1) \<and>
              snd (register_block E block self) =
                self\<lparr>key_index_to_blocks :=
                       key_index_to_blocks (snd (register_block E block self))\<rparr>"
proof (cases "\<exists>i \<in> set (key_indexes E block). block \<in> set (bucket self i)")
  case True
  then have "\<exists>i \<in> set (key_indexes E block).
               \<exists>blocks. key_index_to_blocks self i = Some blocks \<and> block \<in> set blocks"
    by (force simp: bucket_def split: option.splits)
  from register_block_loop_fails [OF this] True show ?thesis
    by (simp add: register_block_loop_eq)
next
  case False
  then have fresh: "\<forall>i \<in> set (key_indexes E block).
               \<forall>blocks. key_index_to_blocks self i = Some blocks \<longrightarrow> block \<notin> set blocks"
    by (auto simp: bucket_def split: option.splits)
  from register_block_loop_appends [OF assms fresh]
  obtain m' where loop: "register_block_loop block (key_indexes E block) (key_index_to_blocks self)
                           = (None, m')"
    and all: "\<forall>i. m' i = (if i \<in> set (key_indexes E block)
                     then Some ((case key_index_to_blocks self i of None \<Rightarrow> [] | Some blocks \<Rightarrow> blocks)
                                @ [block])
                     else key_index_to_blocks self i)"
    by blast
  have reg: "register_block E block self = (None, self\<lparr>key_index_to_blocks := m'\<rparr>)"
    using loop by (simp add: register_block_def)
  have buckets: "bucket (self\<lparr>key_index_to_blocks := m'\<rparr>) i =
          (if i \<in> set (key_indexes E block) then bucket self i @ [block] else bucket self i)" for i
    using all by (simp add: bucket_def)
  have once: "count_list (bucket (self\<lparr>key_index_to_blocks := m'\<rparr>) i) block = 1"
    if "i \<in> set (key_indexes E block)" for i
  proof -
    have "block \<notin> set (bucket self i)" using False that by blast
    then show ?thesis using that buckets [of i] by (simp add: count_list_0_iff)
  qed
  show ?thesis using False reg buckets once by simp
qed

theorem register_block_appends_or_fails_witness:
  "distinct (key_indexes cascade_blocks (top_block 0 2)) \<and>
   fst (register_block cascade_blocks (top_block 0 2) (fst clean_state)) = None \<and>
   bucket (snd (register_block cascade_blocks (top_block 0 2) (fst clean_state))) 0 = [top_block 0 2] \<and>
   bucket (snd (register_block cascade_blocks (top_block 0 2) (fst clean_state))) 1 = [top_block 0 2] \<and>
   bucket (snd (register_block cascade_blocks (top_block 0 2) (fst clean_state))) 2 = [] \<and>
   fst (register_block cascade_blocks (top_block 0 2)
          (snd (register_block cascade_blocks (top_block 0 2) (fst clean_state))))
     = Some AssertionError"
proof -
  have d: "distinct (key_indexes cascade_blocks (top_block 0 2))"
    by (simp add: run)
  have k: "set (key_indexes cascade_blocks (top_block 0 2)) = {0, 1}"
    by (simp add: run)
  have e: "bucket (fst clean_state) i = []" for i
    by (simp add: run)
  note first = register_block_appends_or_fails [OF d, of "fst clean_state"]
  have ok: "fst (register_block cascade_blocks (top_block 0 2) (fst clean_state)) = None"
    using first by (simp add: e)
  have b: "bucket (snd (register_block cascade_blocks (top_block 0 2) (fst clean_state))) i
             = (if i \<in> {0, 1} then [top_block 0 2] else [])" for i
    using first by (simp add: e k)
  note second = register_block_appends_or_fails
                  [OF d, of "snd (register_block cascade_blocks (top_block 0 2) (fst clean_state))"]
  have "0 \<in> set (key_indexes cascade_blocks (top_block 0 2)) \<and>
        top_block 0 2 \<in> set (bucket (snd (register_block cascade_blocks (top_block 0 2)
                                               (fst clean_state))) 0)"
    by (simp add: b k)
  then have present: "\<exists>i \<in> set (key_indexes cascade_blocks (top_block 0 2)).
        top_block 0 2 \<in> set (bucket (snd (register_block cascade_blocks (top_block 0 2)
                                               (fst clean_state))) i)"
    by blast
  have again: "fst (register_block cascade_blocks (top_block 0 2)
          (snd (register_block cascade_blocks (top_block 0 2) (fst clean_state))))
     = Some AssertionError"
    using second unfolding if_P [OF present] .
  show ?thesis using d ok b [of 0] b [of 1] b [of 2] again by simp
qed

section \<open>Properties of the heap of error blocks\<close>

lemma mset_siftdown_loop:
  "pos < length heap \<Longrightarrow>
   mset (siftdown_loop lt heap startpos pos newitem) = mset (heap[pos := newitem])"
proof (induction lt heap startpos pos newitem rule: siftdown_loop.induct)
  case (1 lt heap startpos pos newitem)
  let ?pp = "(pos - 1) div 2"
  show ?case
  proof (cases "startpos < pos \<and> lt newitem (heap ! ?pp)")
    case True
    then have pp: "?pp < pos" by auto
    have unfold: "siftdown_loop lt heap startpos pos newitem
                    = siftdown_loop lt (heap[pos := heap ! ?pp]) startpos ?pp newitem"
      using True by (subst siftdown_loop.simps) (simp add: Let_def)
    have "mset (siftdown_loop lt (heap[pos := heap ! ?pp]) startpos ?pp newitem)
            = mset (heap[pos := heap ! ?pp, ?pp := newitem])"
      using "1.IH" [of ?pp "heap ! ?pp"] True pp "1.prems" by simp
    also have "\<dots> = mset (heap[pos := newitem])"
      using mset_swap [of ?pp "heap[pos := newitem]" pos] pp "1.prems"
      by (simp add: list_update_swap)
    finally show ?thesis using unfold by simp
  next
    case False
    then show ?thesis
      by (subst siftdown_loop.simps) (auto simp: Let_def)
  qed
qed

lemma mset_heappush: "mset (heappush lt heap item) = add_mset item (mset heap)"
proof -
  have "mset (heappush lt heap item) = mset ((heap @ [item])[length heap := (heap @ [item]) ! length heap])"
    unfolding heappush_def siftdown_def
    using mset_siftdown_loop [of "length heap" "heap @ [item]" lt 0 "(heap @ [item]) ! length heap"]
    by simp
  then show ?thesis by simp
qed

text \<open>
  C7. With sub-block reuse disabled, \<^verbatim>\<open>register_error_block\<close> leaves the session as
  it is for a block that is not a top-level block. With reuse enabled, or for a
  top-level block, it adds the item (size, block) to the heap and changes nothing
  else; registering the same block again adds the item a second time.
\<close>

theorem register_error_block_enqueues:
  "(\<not> sub_block_reuse (parameters self) \<and> \<not> is_top_block E block \<longrightarrow>
      register_error_block E block self = self) \<and>
   (sub_block_reuse (parameters self) \<or> is_top_block E block \<longrightarrow>
      mset (error_blocks (register_error_block E block self))
        = add_mset (block_size E block, block) (mset (error_blocks self)) \<and>
      mset (error_blocks (register_error_block E block (register_error_block E block self)))
        = add_mset (block_size E block, block)
            (add_mset (block_size E block, block) (mset (error_blocks self))) \<and>
      (register_error_block E block self)\<lparr>error_blocks := error_blocks self\<rparr> = self)"
  by (auto simp: register_error_block_def mset_heappush)

theorem register_error_block_enqueues_witness:
  "is_top_block cascade_blocks (top_block 0 2) \<and>
   \<not> sub_block_reuse (parameters (fst noisy_state)) \<and>
   \<not> is_top_block cascade_blocks ((top_block 0 2)\<lparr>top := False\<rparr>) \<and>
   register_error_block cascade_blocks ((top_block 0 2)\<lparr>top := False\<rparr>) (fst noisy_state)
     = fst noisy_state \<and>
   mset (error_blocks (register_error_block cascade_blocks (top_block 0 2) (fst noisy_state)))
     = {#(2, top_block 0 2)#} \<and>
   mset (error_blocks (register_error_block cascade_blocks (top_block 0 2)
           (register_error_block cascade_blocks (top_block 0 2) (fst noisy_state))))
     = {#(2, top_block 0 2), (2, top_block 0 2)#}"
proof -
  have t: "is_top_block cascade_blocks (top_block 0 2)"
    by (simp add: cascade_blocks_def top_block_def)
  have n: "\<not> is_top_block cascade_blocks ((top_block 0 2)\<lparr>top := False\<rparr>)"
    by (simp add: cascade_blocks_def top_block_def)
  have r: "\<not> sub_block_reuse (parameters (fst noisy_state))"
    by (simp add: noisy_state_def Session_init_def two_passes_def)
  have e: "error_blocks (fst noisy_state) = []"
    by (simp add: noisy_state_def Session_init_def)
  have s: "block_size cascade_blocks (top_block 0 2) = 2"
    by (simp add: cascade_blocks_def top_block_def)
  show ?thesis
    using register_error_block_enqueues [of "fst noisy_state" cascade_blocks "top_block 0 2"]
          register_error_block_enqueues
            [of "fst noisy_state" cascade_blocks "(top_block 0 2)\<lparr>top := False\<rparr>"]
          t n r e s
    by simp
qed

section \<open>The mock session\<close>

text \<open>
  C10. For a key size of at least 1 and an integer key seed,
  \<^verbatim>\<open>create_mock_session_and_key\<close> fails with an attribute error and changes nothing:
  it calls \<^verbatim>\<open>Key.set_random_seed\<close>, which the class \<^verbatim>\<open>Key\<close> does not define. With
  no key seed and no shuffle seed it returns a new session over a random key of the
  given size.
\<close>

theorem create_mock_session_and_key_seeded_fails:
  "1 \<le> key_size' \<Longrightarrow>
   create_mock_session_and_key R Shuffle_set_random_seed MockClassicalChannel new_stats
       key_size' (Some key_seed) shuffle_seed parameters' w = (Inl AttributeError, w) \<and>
   (\<exists>alice_key w'.
      create_mock_session_and_key R Shuffle_set_random_seed MockClassicalChannel new_stats
          key_size' None None parameters' w
        = (Inr (Session_init new_stats parameters' (MockClassicalChannel alice_key), alice_key), w') \<and>
      key_size alice_key = nat key_size' \<and> well_formed alice_key)"
proof -
  assume size: "1 \<le> key_size'"
  have seeded: "create_mock_session_and_key R Shuffle_set_random_seed MockClassicalChannel
       new_stats key_size' (Some key_seed) shuffle_seed parameters' w = (Inl AttributeError, w)"
    using size by (simp add: create_mock_session_and_key_def Key_getattr_def Key_attributes_def)
  obtain r w' where c: "create_random_key R key_size' None w = (r, w')"
    by (cases "create_random_key R key_size' None w")
  then obtain alice_key where r: "r = Inr alice_key"
    using size by (auto simp: create_random_key_def split: prod.splits if_splits)
  have wf: "well_formed alice_key \<and> key_size alice_key = nat key_size'"
    using create_random_key_well_formed c r by blast
  have "create_mock_session_and_key R Shuffle_set_random_seed MockClassicalChannel new_stats
          key_size' None None parameters' w
        = (Inr (Session_init new_stats parameters' (MockClassicalChannel alice_key), alice_key), w')"
    using size c r by (simp add: create_mock_session_and_key_def)
  with seeded wf show ?thesis by blast
qed

theorem create_mock_session_and_key_seeded_fails_witness:
  "(1::int) \<le> 4 \<and>
   (create_mock_session_and_key lcg (\<lambda>n w. Inr w) (\<lambda>k. k) () 4 (Some 7) None two_passes world0
      :: (error + ((block, Key, unit, unit) Session \<times> Key)) \<times> nat world)
     = (Inl AttributeError, world0) \<and>
   (create_mock_session_and_key lcg (\<lambda>n w. Inr w) (\<lambda>k. k) () 4 (Some 7) (Some 5) two_passes world0
      :: (error + ((block, Key, unit, unit) Session \<times> Key)) \<times> nat world)
     = (Inl AttributeError, world0)"
proof -
  have size: "(1::int) \<le> 4" by simp
  have a: "(create_mock_session_and_key lcg (\<lambda>n w. Inr w) (\<lambda>k. k) () 4 (Some 7) None two_passes world0
      :: (error + ((block, Key, unit, unit) Session \<times> Key)) \<times> nat world)
     = (Inl AttributeError, world0)"
    by (rule conjunct1 [OF create_mock_session_and_key_seeded_fails [OF size]])
  have b: "(create_mock_session_and_key lcg (\<lambda>n w. Inr w) (\<lambda>k. k) () 4 (Some 7) (Some 5) two_passes world0
      :: (error + ((block, Key, unit, unit) Session \<times> Key)) \<times> nat world)
     = (Inl AttributeError, world0)"
    by (rule conjunct1 [OF create_mock_session_and_key_seeded_fails [OF size]])
  from size a b show ?thesis by blast
qed

section \<open>The calls of a run\<close>

lemma unchecked_calls_append:
  "unchecked_calls prev (xs @ ys) = unchecked_calls prev xs @ unchecked_calls (last_event prev xs) ys"
  by (induction prev xs rule: unchecked_calls.induct) auto

lemma last_event_append:
  "last_event prev (xs @ ys) = last_event (last_event prev xs) ys"
  by (induction prev xs rule: last_event.induct) auto

lemma covering_blocks_of_append:
  "covering_blocks_of (xs @ ys) = covering_blocks_of xs @ covering_blocks_of ys"
  by (induction xs rule: covering_blocks_of.induct) auto

lemma shuffles_of_append:
  "shuffles_of (xs @ ys) = shuffles_of xs @ shuffles_of ys"
  by (induction xs rule: shuffles_of.induct) auto

lemma passes_of_append:
  "passes_of (xs @ ys) = passes_of xs + passes_of ys"
  by (induction xs rule: passes_of.induct) auto

text \<open>The four shapes of the calls of one round.\<close>

lemma error_block_round_events:
  "error_block_round E st = (out, evs) \<Longrightarrow>
     (evs = [] \<and> (\<exists>e. out = Raise e)) \<or>
     (\<exists>item heap. evs = [Heappop item heap] \<and> (\<exists>e. out = Raise e)) \<or>
     (\<exists>item heap. evs = [Heappop item heap, Error_parity (snd item) ERRORS_EVEN] \<and>
                   (\<exists>st'. out = Return st')) \<or>
     (\<exists>item heap. evs = [Heappop item heap, Error_parity (snd item) ERRORS_ODD,
                           Correct_one_bit (snd item)] \<and> out \<noteq> Out_of_fuel)"
  unfolding error_block_round_def Let_def
  by (auto split: sum.splits prod.splits option.splits if_splits intro: parity.exhaust)


lemma error_block_round_checked:
  "unchecked_calls prev (snd (error_block_round E st)) = [] \<and>
   (\<not> odd_check prev \<longrightarrow> \<not> odd_check (last_event prev (snd (error_block_round E st)))) \<and>
   covering_blocks_of (snd (error_block_round E st)) = [] \<and>
   shuffles_of (snd (error_block_round E st)) = [] \<and>
   passes_of (snd (error_block_round E st)) = 0"
proof -
  obtain out evs where r: "error_block_round E st = (out, evs)"
    by (cases "error_block_round E st")
  from error_block_round_events [OF r] show ?thesis
    unfolding r by auto
qed

lemma drain_checked:
  "unchecked_calls prev (snd (correct_registered_error_blocks fuel E st)) = [] \<and>
   (\<not> odd_check prev \<longrightarrow>
      \<not> odd_check (last_event prev (snd (correct_registered_error_blocks fuel E st)))) \<and>
   covering_blocks_of (snd (correct_registered_error_blocks fuel E st)) = [] \<and>
   shuffles_of (snd (correct_registered_error_blocks fuel E st)) = [] \<and>
   passes_of (snd (correct_registered_error_blocks fuel E st)) = 0"
proof (induction fuel arbitrary: st prev)
  case 0
  show ?case by simp
next
  case (Suc fuel)
  show ?case
  proof (cases "error_blocks (fst st) = []")
    case True
    then show ?thesis by simp
  next
    case False
    obtain out evs where r: "error_block_round E st = (out, evs)"
      by (cases "error_block_round E st")
    note round = error_block_round_checked [of _ E st, unfolded r snd_conv]
    show ?thesis
    proof (cases out)
      case (Return st')
      obtain out' evs' where d: "correct_registered_error_blocks fuel E st' = (out', evs')"
        by (cases "correct_registered_error_blocks fuel E st'")
      note rest = Suc.IH [of _ st', unfolded d snd_conv]
      have whole: "snd (correct_registered_error_blocks (Suc fuel) E st) = evs @ evs'"
        using False r Return d by simp
      show ?thesis
        unfolding whole
        using round [of prev] rest [of "last_event prev evs"]
        by (simp add: unchecked_calls_append last_event_append covering_blocks_of_append
                      shuffles_of_append passes_of_append)
    next
      case (Raise e)
      have whole: "snd (correct_registered_error_blocks (Suc fuel) E st) = evs"
        using False r Raise by simp
      show ?thesis unfolding whole using round [of prev] by simp
    next
      case Out_of_fuel
      have whole: "snd (correct_registered_error_blocks (Suc fuel) E st) = evs"
        using False r Out_of_fuel by simp
      show ?thesis unfolding whole using round [of prev] by simp
    qed
  qed
qed

lemma visit_blocks_unchecked:
  "\<not> odd_check prev \<Longrightarrow>
   prefix (unchecked_calls prev (snd (visit_blocks fuel E blocks st))) blocks \<and>
   (is_Return (fst (visit_blocks fuel E blocks st)) \<longrightarrow>
      unchecked_calls prev (snd (visit_blocks fuel E blocks st)) = blocks) \<and>
   \<not> odd_check (last_event prev (snd (visit_blocks fuel E blocks st))) \<and>
   covering_blocks_of (snd (visit_blocks fuel E blocks st)) = [] \<and>
   shuffles_of (snd (visit_blocks fuel E blocks st)) = [] \<and>
   passes_of (snd (visit_blocks fuel E blocks st)) = 0"
proof (induction blocks arbitrary: st prev)
  case Nil
  then show ?case by simp
next
  case (Cons block rest)
  have first: "unchecked_calls prev (Correct_one_bit block # evs)
                 = block # unchecked_calls (Some (Correct_one_bit block)) evs" for evs
    using Cons.prems by (cases prev rule: odd_check.cases) auto
  show ?case
  proof (cases "correct_one_bit E block st")
    case (Inl e)
    then show ?thesis using first [of "[]"] by simp
  next
    case (Inr r)
    obtain corrected st1 where r: "r = (corrected, st1)" by (cases r)
    obtain out evs where d: "correct_registered_error_blocks fuel E st1 = (out, evs)"
      by (cases "correct_registered_error_blocks fuel E st1")
    note drain = drain_checked [of _ fuel E st1, unfolded d snd_conv]
    have after: "\<not> odd_check (last_event (Some (Correct_one_bit block)) evs)"
      using drain [of "Some (Correct_one_bit block)"] by simp
    show ?thesis
    proof (cases out)
      case (Return st2)
      obtain out' evs' where v: "visit_blocks fuel E rest st2 = (out', evs')"
        by (cases "visit_blocks fuel E rest st2")
      note rest = Cons.IH [OF after, of st2, unfolded v snd_conv fst_conv]
      have whole: "visit_blocks fuel E (block # rest) st
                     = (out', Correct_one_bit block # evs @ evs')"
        using Inr r d Return v by simp
      show ?thesis
        unfolding whole snd_conv fst_conv first
        using drain [of "Some (Correct_one_bit block)"] rest
        by (simp add: unchecked_calls_append last_event_append covering_blocks_of_append
                      shuffles_of_append passes_of_append)
    next
      case (Raise e)
      have whole: "visit_blocks fuel E (block # rest) st = (Raise e, Correct_one_bit block # evs)"
        using Inr r d Raise by simp
      show ?thesis
        unfolding whole snd_conv fst_conv first
        using drain [of "Some (Correct_one_bit block)"] by simp
    next
      case Out_of_fuel
      have whole: "visit_blocks fuel E (block # rest) st
                     = (Out_of_fuel, Correct_one_bit block # evs)"
        using Inr r d Out_of_fuel by simp
      show ?thesis
        unfolding whole snd_conv fst_conv first
        using drain [of "Some (Correct_one_bit block)"] by simp
    qed
  qed
qed


lemma iterations_trace:
  "\<not> odd_check prev \<Longrightarrow>
   prefix (unchecked_calls prev (snd (iterations fuel E key q its st)))
          (covering_blocks_of (snd (iterations fuel E key q its st))) \<and>
   \<not> odd_check (last_event prev (snd (iterations fuel E key q its st))) \<and>
   (is_Return (fst (iterations fuel E key q its st)) \<longrightarrow>
      unchecked_calls prev (snd (iterations fuel E key q its st))
        = covering_blocks_of (snd (iterations fuel E key q its st)) \<and>
      shuffles_of (snd (iterations fuel E key q its st))
        = map (\<lambda>iteration. if iteration = 1 then SHUFFLE_KEEP_SAME else SHUFFLE_RANDOM) its \<and>
      passes_of (snd (iterations fuel E key q its st)) = length its)"
proof (induction "its" arbitrary: st prev)
  case Nil
  then show ?case by simp
next
  case (Cons iteration rest)
  define algorithm where
    "algorithm = (if iteration = 1 then SHUFFLE_KEEP_SAME else SHUFFLE_RANDOM)"
  define built :: "'a event" where "built = New_shuffle (size_of_key E key st) algorithm"
  define width where "width = block_size_function (parameters (fst st)) q iteration"
  show ?case
  proof (cases "Shuffle E (size_of_key E key st) algorithm st")
    case (Inl e)
    then have whole: "iterations fuel E key q (iteration # rest) st = (Raise e, [built])"
      by (simp add: algorithm_def built_def Let_def)
    show ?thesis unfolding whole using Cons.prems by (simp add: built_def)
  next
    case (Inr r)
    obtain shuffle st1 where r: "r = (shuffle, st1)" by (cases r)
    show ?thesis
    proof (cases "create_covering_blocks E key shuffle width st1")
      case (Inl e)
      then have whole: "iterations fuel E key q (iteration # rest) st = (Raise e, [built])"
        using Inr r by (simp add: algorithm_def built_def width_def Let_def)
      show ?thesis unfolding whole using Cons.prems by (simp add: built_def)
    next
      case c: (Inr r2)
      obtain blocks st2 where r2: "r2 = (blocks, st2)" by (cases r2)
      define covering :: "'a event" where "covering = Covering_blocks width blocks"
      obtain out evs where v: "visit_blocks fuel E blocks st2 = (out, evs)"
        by (cases "visit_blocks fuel E blocks st2")
      have start: "\<not> odd_check (Some covering)" by (simp add: covering_def)
      note visit = visit_blocks_unchecked [OF start, of fuel E blocks st2,
                                          unfolded v snd_conv fst_conv]
      have head: "unchecked_calls prev (built # covering # tr)
                    = unchecked_calls (Some covering) tr" for tr
        by (simp add: built_def covering_def)
      have head_last: "last_event prev (built # covering # tr) = last_event (Some covering) tr" for tr
        by simp
      have head_cov: "covering_blocks_of (built # covering # tr) = blocks @ covering_blocks_of tr" for tr
        by (simp add: built_def covering_def)
      have head_sh: "shuffles_of (built # covering # tr) = algorithm # shuffles_of tr" for tr
        by (simp add: built_def covering_def)
      have head_p: "passes_of (built # covering # tr) = Suc (passes_of tr)" for tr
        by (simp add: built_def covering_def)
      show ?thesis
      proof (cases out)
        case (Return st3)
        obtain out' evs' where i: "iterations fuel E key q rest st3 = (out', evs')"
          by (cases "iterations fuel E key q rest st3")
        have after: "\<not> odd_check (last_event (Some covering) evs)" using visit by simp
        note more = Cons.IH [OF after, of st3, unfolded i snd_conv fst_conv]
        have whole: "iterations fuel E key q (iteration # rest) st
                       = (out', built # covering # evs @ evs')"
          using Inr r c r2 v Return i
          by (simp add: algorithm_def built_def width_def covering_def Let_def)
        have vis: "unchecked_calls (Some covering) evs = blocks"
          using visit Return by simp
        show ?thesis
          unfolding whole snd_conv fst_conv head head_last head_cov head_sh head_p
          using visit more vis
          by (simp add: unchecked_calls_append last_event_append covering_blocks_of_append
                        shuffles_of_append passes_of_append algorithm_def)
      next
        case (Raise e)
        have whole: "iterations fuel E key q (iteration # rest) st
                       = (Raise e, built # covering # evs)"
          using Inr r c r2 v Raise
          by (simp add: algorithm_def built_def width_def covering_def Let_def)
        show ?thesis
          unfolding whole snd_conv fst_conv head head_last head_cov head_sh head_p
          using visit by simp
      next
        case Out_of_fuel
        have whole: "iterations fuel E key q (iteration # rest) st
                       = (Out_of_fuel, built # covering # evs)"
          using Inr r c r2 v Out_of_fuel
          by (simp add: algorithm_def built_def width_def covering_def Let_def)
        show ?thesis
          unfolding whole snd_conv fst_conv head head_last head_cov head_sh head_p
          using visit by simp
      qed
    qed
  qed
qed

lemma correct_key_trace:
  "prefix (unchecked_calls None (snd (correct_key fuel E key q st)))
          (covering_blocks_of (snd (correct_key fuel E key q st))) \<and>
   (\<forall>key' st' st1.
      fst (correct_key fuel E key q st) = Return (key', st') \<and> start_reconciliation E st = Inr st1 \<longrightarrow>
      key' = key \<and>
      unchecked_calls None (snd (correct_key fuel E key q st))
        = covering_blocks_of (snd (correct_key fuel E key q st)) \<and>
      shuffles_of (snd (correct_key fuel E key q st))
        = map (\<lambda>iteration. if iteration = 1 then SHUFFLE_KEEP_SAME else SHUFFLE_RANDOM)
              [1..nr_iterations (parameters (fst st1))] \<and>
      passes_of (snd (correct_key fuel E key q st)) = nat (nr_iterations (parameters (fst st1))))"
proof (cases "start_reconciliation E st")
  case (Inl e)
  then show ?thesis by (simp add: correct_key_def)
next
  case (Inr st1)
  define its where "its = [1..nr_iterations (parameters (fst st1))]"
  have len: "length its = nat (nr_iterations (parameters (fst st1)))"
    by (simp add: its_def)
  obtain out evs where i: "iterations fuel E key q its st1 = (out, evs)"
    by (cases "iterations fuel E key q its st1")
  have start: "\<not> odd_check (Some (Start_reconciliation :: 'a event))" by simp
  note its = iterations_trace [OF start, of fuel E key q its st1, unfolded i snd_conv fst_conv]
  show ?thesis
  proof (cases out)
    case (Return st2)
    have tr: "snd (correct_key fuel E key q st)
                = Start_reconciliation # evs @ [End_reconciliation]"
      using Inr i Return by (simp add: correct_key_def its_def split: sum.splits)
    have res: "fst (correct_key fuel E key q st) = Return (key', st') \<Longrightarrow> key' = key" for key' st'
      using Inr i Return by (simp add: correct_key_def its_def split: sum.splits)
    show ?thesis
      unfolding tr using its Return Inr res len
      by (auto simp: unchecked_calls_append covering_blocks_of_append shuffles_of_append
                     passes_of_append its_def)
  next
    case (Raise e)
    have tr: "correct_key fuel E key q st = (Raise e, Start_reconciliation # evs)"
      using Inr i Raise by (simp add: correct_key_def its_def)
    show ?thesis unfolding tr using its by simp
  next
    case Out_of_fuel
    have tr: "correct_key fuel E key q st = (Out_of_fuel, Start_reconciliation # evs)"
      using Inr i Out_of_fuel by (simp add: correct_key_def its_def)
    show ?thesis unfolding tr using its by simp
  qed
qed



subsection \<open>Runs of the concrete Cascade\<close>

lemma noisy_run_returns:
  "is_Return (fst (correct_key 10 cascade (0::nat) () noisy_state)) \<and>
   fst (result (fst (correct_key 10 cascade (0::nat) () noisy_state))) = 0"
  by (simp add: run)

lemma noisy_run_calls:
  "snd (correct_key 10 cascade (0::nat) () noisy_state) =
     [Start_reconciliation,
      New_shuffle 4 SHUFFLE_KEEP_SAME,
      Covering_blocks 2 [top_block 0 2, top_block 2 4],
      Correct_one_bit (top_block 0 2),
      Correct_one_bit (top_block 2 4),
      New_shuffle 4 SHUFFLE_RANDOM,
      Covering_blocks 2 [second_block 0 2, second_block 2 4],
      Correct_one_bit (second_block 0 2),
      Heappop (2, top_block 0 2) [(2, top_block 0 2)],
      Error_parity (top_block 0 2) ERRORS_ODD,
      Correct_one_bit (top_block 0 2),
      Correct_one_bit (second_block 2 4),
      End_reconciliation]"
  by (simp add: run)


lemma clean_run_calls:
  "take 4 (snd (correct_key 10 cascade (0::nat) () clean_state)) =
     [Start_reconciliation,
      New_shuffle 4 SHUFFLE_KEEP_SAME,
      Covering_blocks 2 [top_block 0 2, top_block 2 4],
      Correct_one_bit (top_block 0 2)] \<and>
   unchecked_calls None (snd (correct_key 10 cascade (0::nat) () clean_state)) =
     [top_block 0 2, top_block 2 4, second_block 0 2, second_block 2 4]"
  by (simp add: run)

lemma clean_parity_at_call:
  "(case Shuffle cascade 4 SHUFFLE_KEEP_SAME clean_state of
      Inl e \<Rightarrow> Inl e
    | Inr (sh, st1) \<Rightarrow>
        (case create_covering_blocks cascade 0 sh 2 st1 of
           Inl e \<Rightarrow> Inl e
         | Inr (blocks, st2) \<Rightarrow> map_sum id fst (error_parity cascade (hd blocks) st2)))
     = Inr ERRORS_EVEN"
  by (simp add: run)

lemma queued_drain_calls:
  "is_Return (fst (correct_registered_error_blocks 10 cascade queued_state)) \<and>
   snd (correct_registered_error_blocks 10 cascade queued_state) =
     [Heappop (1, top_block 0 1)
        [(1, top_block 0 1), (2, top_block 0 2), (1, top_block 0 1), (4, top_block 0 4)],
      Error_parity (top_block 0 1) ERRORS_ODD,
      Correct_one_bit (top_block 0 1),
      Heappop (1, top_block 0 1) [(1, top_block 0 1), (2, top_block 0 2), (4, top_block 0 4)],
      Error_parity (top_block 0 1) ERRORS_EVEN,
      Heappop (2, top_block 0 2) [(2, top_block 0 2), (4, top_block 0 4)],
      Error_parity (top_block 0 2) ERRORS_ODD,
      Correct_one_bit (top_block 0 2),
      Heappop (4, top_block 0 4) [(4, top_block 0 4)],
      Error_parity (top_block 0 4) ERRORS_EVEN]"
  by (simp add: run)


subsection \<open>Which calls of correct_one_bit follow a check\<close>

text \<open>
  C3, as the claim states it, fails. \<^verbatim>\<open>correct_key\<close> calls \<^verbatim>\<open>correct_one_bit\<close> on every
  top-level block of a pass without reading its error parity. On a key without
  errors, the first four calls of the run are the channel's start, the shuffle, the
  covering blocks and \<^verbatim>\<open>correct_one_bit\<close> on the first block, whose error parity is
  even in the state of that call; none of the four calls of \<^verbatim>\<open>correct_one_bit\<close> in the
  run follows a check.
\<close>

theorem correct_key_calls_unchecked_counterexample:
  "take 4 (snd (correct_key 10 cascade (0::nat) () clean_state)) =
     [Start_reconciliation,
      New_shuffle 4 SHUFFLE_KEEP_SAME,
      Covering_blocks 2 [top_block 0 2, top_block 2 4],
      Correct_one_bit (top_block 0 2)] \<and>
   (case Shuffle cascade 4 SHUFFLE_KEEP_SAME clean_state of
      Inl e \<Rightarrow> Inl e
    | Inr (sh, st1) \<Rightarrow>
        (case create_covering_blocks cascade 0 sh 2 st1 of
           Inl e \<Rightarrow> Inl e
         | Inr (blocks, st2) \<Rightarrow> map_sum id fst (error_parity cascade (hd blocks) st2)))
     = Inr ERRORS_EVEN \<and>
   unchecked_calls None (snd (correct_key 10 cascade (0::nat) () clean_state)) =
     [top_block 0 2, top_block 2 4, second_block 0 2, second_block 2 4]"
  using clean_run_calls clean_parity_at_call by blast

text \<open>
  C3, amended. In every run of \<^verbatim>\<open>correct_registered_error_blocks\<close>, each call of
  \<^verbatim>\<open>correct_one_bit\<close> follows at once a read of that block's error parity that
  answered odd. In every run of \<^verbatim>\<open>correct_key\<close>, the calls of \<^verbatim>\<open>correct_one_bit\<close>
  that do not follow such a check are calls on the covering blocks of the passes, in
  order, and in a run that returns they are exactly one call on each covering block.
\<close>

theorem correct_one_bit_unchecked_only_on_covering_blocks:
  "unchecked_calls prev (snd (correct_registered_error_blocks fuel E st)) = [] \<and>
   prefix (unchecked_calls None (snd (correct_key fuel E key q st')))
          (covering_blocks_of (snd (correct_key fuel E key q st'))) \<and>
   (is_Return (fst (correct_key fuel E key q st')) \<longrightarrow>
      unchecked_calls None (snd (correct_key fuel E key q st'))
        = covering_blocks_of (snd (correct_key fuel E key q st')))"
proof -
  have returned: "unchecked_calls None (snd (correct_key fuel E key q st'))
        = covering_blocks_of (snd (correct_key fuel E key q st'))"
    if r: "is_Return (fst (correct_key fuel E key q st'))"
  proof (cases "start_reconciliation E st'")
    case (Inl e)
    then show ?thesis using r by (simp add: correct_key_def)
  next
    case (Inr st1)
    obtain key' st2 where "fst (correct_key fuel E key q st') = Return (key', st2)"
      using r by (cases "fst (correct_key fuel E key q st')") auto
    then show ?thesis using correct_key_trace [of fuel E key q st'] Inr by blast
  qed
  show ?thesis
    using drain_checked [of prev fuel E st] correct_key_trace [of fuel E key q st'] returned
    by blast
qed

theorem correct_one_bit_unchecked_only_on_covering_blocks_witness:
  "is_Return (fst (correct_key 10 cascade (0::nat) () noisy_state)) \<and>
   unchecked_calls None (snd (correct_key 10 cascade (0::nat) () noisy_state))
     = [top_block 0 2, top_block 2 4, second_block 0 2, second_block 2 4] \<and>
   covering_blocks_of (snd (correct_key 10 cascade (0::nat) () noisy_state))
     = [top_block 0 2, top_block 2 4, second_block 0 2, second_block 2 4] \<and>
   Correct_one_bit (top_block 0 1) \<in> set (snd (correct_registered_error_blocks 10 cascade queued_state)) \<and>
   unchecked_calls None (snd (correct_registered_error_blocks 10 cascade queued_state)) = []"
proof -
  note inst = correct_one_bit_unchecked_only_on_covering_blocks
               [of None 10 cascade queued_state "0::nat" "()" noisy_state]
  have r: "is_Return (fst (correct_key 10 cascade (0::nat) () noisy_state))"
    using noisy_run_returns by blast
  have c: "covering_blocks_of (snd (correct_key 10 cascade (0::nat) () noisy_state))
     = [top_block 0 2, top_block 2 4, second_block 0 2, second_block 2 4]"
    by (simp add: noisy_run_calls)
  have d: "Correct_one_bit (top_block 0 1)
             \<in> set (snd (correct_registered_error_blocks 10 cascade queued_state))"
    using queued_drain_calls by simp
  from inst r c d show ?thesis by simp
qed

subsection \<open>The passes of correct_key\<close>



section \<open>The heap property and the draining loop\<close>




lemma parent_eq_iff: "0 < (i::nat) \<Longrightarrow> (i - 1) div 2 = p \<longleftrightarrow> i = 2 * p + 1 \<or> i = 2 * p + 2"
  by arith























end
